theory Spec2Isabelle
  imports Complex_Main "HOL-Library.Sublist"
begin

section \<open>Python primitives used by the notebook\<close>

text \<open>
  The notebook \<^verbatim>\<open>docs/_static/notebooks/nano9.ipynb\<close> is Python 2. Its helper
  \<^verbatim>\<open>get_noise_from_pal2\<close> uses string containment, \<^verbatim>\<open>str.split\<close> with and without a
  separator, list indexing, \<^verbatim>\<open>str.join\<close> and \<^verbatim>\<open>float\<close>. Every one of them that can raise
  returns a sum here, with the exception on the left.
\<close>

datatype py_error = IndexError | ValueError

text \<open>
  \<^verbatim>\<open>xs[i]\<close>: the element at \<open>i\<close> for \<open>0 \<le> i < len(xs)\<close>, the element at
  \<open>len(xs) + i\<close> for \<open>- len(xs) \<le> i < 0\<close>, and IndexError for any other index.
\<close>

definition item :: "'a list \<Rightarrow> int \<Rightarrow> py_error + 'a" where
  "item xs i =
     (if 0 \<le> i \<and> i < int (length xs) then Inr (xs ! nat i)
      else if i < 0 \<and> - int (length xs) \<le> i then Inr (xs ! nat (int (length xs) + i))
      else Inl IndexError)"

text \<open>\<^verbatim>\<open>sub in s\<close> on strings: \<open>sub\<close> occurs in \<open>s\<close> as a contiguous run.\<close>

fun contains :: "string \<Rightarrow> string \<Rightarrow> bool" where
  "contains sub [] = (sub = [])"
| "contains sub (c # cs) = (prefix sub (c # cs) \<or> contains sub cs)"

text \<open>
  \<^verbatim>\<open>s.split(sep)\<close>: the pieces between the non-overlapping occurrences of \<open>sep\<close>, found
  from the left. Python raises ValueError for an empty separator; the notebook only passes
  non-empty literals, and with an empty one this function returns the string unsplit.
\<close>

function split_sep :: "string \<Rightarrow> string \<Rightarrow> string list" where
  "split_sep sep [] = [[]]"
| "split_sep sep (c # cs) =
     (if sep \<noteq> [] \<and> prefix sep (c # cs)
      then [] # split_sep sep (drop (length sep) (c # cs))
      else (case split_sep sep cs of
              [] \<Rightarrow> [[c]]
            | p # ps \<Rightarrow> (c # p) # ps))"
  by pat_completeness auto
termination
  by (relation "measure (\<lambda>(sep, s). length s)") (auto simp: neq_Nil_conv)

text \<open>The characters for which Python 2's \<^verbatim>\<open>str.isspace\<close> holds (C locale).\<close>

definition isspace :: "char \<Rightarrow> bool" where
  "isspace c \<longleftrightarrow> c \<in> {CHR 0x20, CHR 0x09, CHR 0x0A, CHR 0x0B, CHR 0x0C, CHR 0x0D}"

text \<open>
  \<^verbatim>\<open>s.split()\<close>: the maximal runs of non-whitespace characters; \<open>cur\<close> holds the run being
  read, reversed.
\<close>

fun split_ws_from :: "string \<Rightarrow> string \<Rightarrow> string list" where
  "split_ws_from cur [] = (if cur = [] then [] else [rev cur])"
| "split_ws_from cur (c # cs) =
     (if isspace c
      then (if cur = [] then split_ws_from [] cs else rev cur # split_ws_from [] cs)
      else split_ws_from (c # cur) cs)"

definition split_ws :: "string \<Rightarrow> string list" where
  "split_ws s = split_ws_from [] s"

text \<open>\<^verbatim>\<open>sep.join(xs)\<close>.\<close>

fun join :: "string \<Rightarrow> string list \<Rightarrow> string" where
  "join sep [] = []"
| "join sep [x] = x"
| "join sep (x # y # ys) = x @ sep @ join sep (y # ys)"

section \<open>The noise-file parser \<^verbatim>\<open>get_noise_from_pal2\<close>\<close>

text \<open>
  One pass of the loop body up to the \<^verbatim>\<open>if flag:\<close> test either leaves the loop (\<open>Break\<close>)
  or has bound \<^verbatim>\<open>par\<close> and \<^verbatim>\<open>flag\<close>.
\<close>

datatype branch = Break | Named string string

text \<open>\<^verbatim>\<open>flag = ln[0].split(key)[-1]\<close>, with \<open>toks\<close> for the source's \<^verbatim>\<open>ln = line.split()\<close>.\<close>

definition flag_of :: "string list \<Rightarrow> string \<Rightarrow> py_error + string" where
  "flag_of toks key =
     (case item toks 0 of
        Inl e \<Rightarrow> Inl e
      | Inr t \<Rightarrow> item (split_sep key t) (- 1))"

definition classify :: "string \<Rightarrow> py_error + branch" where
  "classify line =
     (let toks = split_ws line in
      if contains ''efac'' line then
        (case flag_of toks ''efac-'' of Inl e \<Rightarrow> Inl e | Inr flag \<Rightarrow> Inr (Named ''efac'' flag))
      else if contains ''equad'' line then
        (case flag_of toks ''equad-'' of Inl e \<Rightarrow> Inl e
         | Inr flag \<Rightarrow> Inr (Named ''log10_equad'' flag))
      else if contains ''jitter_q'' line then
        (case flag_of toks ''jitter_q-'' of Inl e \<Rightarrow> Inl e
         | Inr flag \<Rightarrow> Inr (Named ''log10_ecorr'' flag))
      else if contains ''RN-Amplitude'' line then Inr (Named ''log10_A'' [])
      else if contains ''RN-spectral-index'' line then Inr (Named ''gamma'' [])
      else Inr Break)"

text \<open>
  \<^verbatim>\<open>name = [psrname, flag, par] if flag else [psrname, par]; pname = '_'.join(name)\<close>
\<close>

definition pname_of :: "string \<Rightarrow> string \<Rightarrow> string \<Rightarrow> string" where
  "pname_of psrname flag par =
     join ''_'' (if flag \<noteq> [] then [psrname, flag, par] else [psrname, par])"

text \<open>
  The \<^verbatim>\<open>for line in lines\<close> loop, with the dictionary \<^verbatim>\<open>params\<close> as a map. Python's
  \<^verbatim>\<open>float\<close> is the parameter \<open>float_of\<close>: \<open>None\<close> where \<^verbatim>\<open>float\<close> raises ValueError.
\<close>

fun noise_loop ::
  "(string \<Rightarrow> 'v option) \<Rightarrow> string \<Rightarrow> string list \<Rightarrow> (string \<rightharpoonup> 'v) \<Rightarrow> py_error + (string \<rightharpoonup> 'v)"
where
  "noise_loop float_of psrname [] params = Inr params"
| "noise_loop float_of psrname (line # rest) params =
     (case classify line of
        Inl e \<Rightarrow> Inl e
      | Inr Break \<Rightarrow> Inr params
      | Inr (Named par flag) \<Rightarrow>
          (case item (split_ws line) 1 of
             Inl e \<Rightarrow> Inl e
           | Inr t \<Rightarrow>
               (case float_of t of
                  None \<Rightarrow> Inl ValueError
                | Some v \<Rightarrow>
                    noise_loop float_of psrname rest
                      (params(pname_of psrname flag par \<mapsto> v)))))"

text \<open>\<^verbatim>\<open>psrname = noisefile.split('/')[-1].split('_noise.txt')[0]\<close>\<close>

definition psrname_of :: "string \<Rightarrow> py_error + string" where
  "psrname_of noisefile =
     (case item (split_sep ''/'' noisefile) (- 1) of
        Inl e \<Rightarrow> Inl e
      | Inr base \<Rightarrow> item (split_sep ''_noise.txt'' base) 0)"

text \<open>
  The function itself; \<open>lines\<close> is what \<^verbatim>\<open>fin.readlines()\<close> returned for the file at
  \<open>noisefile\<close>.
\<close>

definition get_noise_from_pal2 ::
  "(string \<Rightarrow> 'v option) \<Rightarrow> string \<Rightarrow> string list \<Rightarrow> py_error + (string \<rightharpoonup> 'v)"
where
  "get_noise_from_pal2 float_of noisefile lines =
     (case psrname_of noisefile of
        Inl e \<Rightarrow> Inl e
      | Inr psrname \<Rightarrow> noise_loop float_of psrname lines Map.empty)"

section \<open>The jump groups of the sampler set-up cell\<close>

text \<open>
  \<^verbatim>\<open>range(start, stop, step)\<close> of Python 2, which returns a list, for the non-negative
  arguments the notebook passes. Python raises ValueError for a zero step; the notebook's
  steps are the literals 1 (implicit) and 2, and a zero step gives the empty list here.
\<close>

function range3 :: "nat \<Rightarrow> nat \<Rightarrow> nat \<Rightarrow> nat list" where
  "range3 start stop step =
     (if step = 0 \<or> stop \<le> start then [] else start # range3 (start + step) stop step)"
  by pat_completeness auto
termination
  by (relation "measure (\<lambda>(start, stop, step). stop - start)") auto

declare range3.simps [simp del]

text \<open>\<^verbatim>\<open>map(list, zip(range(0,ndim,2), range(1,ndim,2)))\<close>\<close>

definition pair_groups :: "nat \<Rightarrow> nat list list" where
  "pair_groups ndim = map (\<lambda>(a, b). [a, b]) (zip (range3 0 ndim 2) (range3 1 ndim 2))"

text \<open>
  \<^verbatim>\<open>groups = [range(0, ndim)]; groups.extend(map(list, zip(...))); groups.extend([[36]])\<close>,
  where \<open>ndim = len(xs)\<close> is the number of free parameters.
\<close>

definition groups :: "nat \<Rightarrow> nat list list" where
  "groups ndim = ([range3 0 ndim 1] @ pair_groups ndim) @ [[36]]"

text \<open>
  What a partition of the indices \<open>0..ndim-1\<close> into groups asks for: every index is in
  some group, and two groups at different positions of the list share no index.
\<close>

definition covers :: "nat list list \<Rightarrow> nat \<Rightarrow> bool" where
  "covers gs ndim \<longleftrightarrow> (\<forall>i < ndim. \<exists>g \<in> set gs. i \<in> set g)"

definition pairwise_disjoint :: "nat list list \<Rightarrow> bool" where
  "pairwise_disjoint gs \<longleftrightarrow>
     (\<forall>a < length gs. \<forall>b < length gs. a \<noteq> b \<longrightarrow> set (gs ! a) \<inter> set (gs ! b) = {})"

definition is_partition :: "nat list list \<Rightarrow> nat \<Rightarrow> bool" where
  "is_partition gs ndim \<longleftrightarrow> covers gs ndim \<and> pairwise_disjoint gs"

text \<open>A group is usable by a sampler over \<open>ndim\<close> coordinates when all its indices exist.\<close>

definition valid_group :: "nat \<Rightarrow> nat list \<Rightarrow> bool" where
  "valid_group ndim g \<longleftrightarrow> (\<forall>i \<in> set g. i < ndim)"

section \<open>The upper limit read off the chain\<close>

text \<open>
  The last code cell computes \<^verbatim>\<open>upper = 10**np.percentile(chain[burn:, -5], q=0.95)\<close>
  with \<^verbatim>\<open>burn = int(0.25 * chain.shape[0])\<close>. The chain is a two-dimensional array,
  here the list of its rows, over the reals: the property at stake is which order statistic
  is taken, not how it is rounded.

  \<^verbatim>\<open>a[:, j]\<close>: the entry at column \<open>j\<close> of every row, IndexError when a row has no such
  column.
\<close>

fun column :: "real list list \<Rightarrow> int \<Rightarrow> py_error + real list" where
  "column [] j = Inr []"
| "column (row # rows) j =
     (case item row j of
        Inl e \<Rightarrow> Inl e
      | Inr x \<Rightarrow> (case column rows j of Inl e \<Rightarrow> Inl e | Inr xs \<Rightarrow> Inr (x # xs)))"

text \<open>
  \<^verbatim>\<open>np.percentile(a, q)\<close> with numpy's default linear interpolation: \<open>q\<close> is a percentage, on
  the scale 0 to 100 (outside it numpy raises ValueError); the sorted sample is read at the
  position \<open>q / 100 * (n - 1)\<close>, interpolating linearly between the two neighbours when
  the position is not whole. For an empty sample numpy gives no number (an exception or
  not-a-number, depending on the version), which is the error branch here.
\<close>

definition percentile :: "real list \<Rightarrow> real \<Rightarrow> py_error + real" where
  "percentile a q =
     (if q < 0 \<or> 100 < q then Inl ValueError
      else if a = [] then Inl IndexError
      else
        let s = sort a;
            n = length s;
            pos = q / 100 * real (n - 1);
            lo = nat \<lfloor>pos\<rfloor>;
            hi = min (lo + 1) (n - 1)
        in Inr (s ! lo + (pos - real lo) * (s ! hi - s ! lo)))"

definition burn :: "real list list \<Rightarrow> nat" where
  "burn chain = length chain div 4"

definition upper :: "real list list \<Rightarrow> py_error + real" where
  "upper chain =
     (case column (drop (burn chain) chain) (- 5) of
        Inl e \<Rightarrow> Inl e
      | Inr col \<Rightarrow>
          (case percentile col (95 / 100) of
             Inl e \<Rightarrow> Inl e
           | Inr v \<Rightarrow> Inr (10 powr v)))"

text \<open>
  The reading of a sorted sample \<open>s\<close> at a position: the interpolation step of
  \<open>percentile\<close> on its own, for the proofs.
\<close>

definition interp :: "real list \<Rightarrow> real \<Rightarrow> real" where
  "interp s pos =
     (let lo = nat \<lfloor>pos\<rfloor>; hi = min (lo + 1) (length s - 1)
      in s ! lo + (pos - real lo) * (s ! hi - s ! lo))"

text \<open>
  A chain of eight rows with the log-amplitude in the fifth column from the end; the first
  two rows are the burn-in.
\<close>

definition demo_chain :: "real list list" where
  "demo_chain =
     [[0, - 18, 0, 0, 0, 0], [0, - 18, 0, 0, 0, 0], [0, - 15, 0, 0, 0, 0], [0, - 14, 0, 0, 0, 0],
      [0, - 16, 0, 0, 0, 0], [0, - 13, 0, 0, 0, 0], [0, - 17, 0, 0, 0, 0], [0, - 12, 0, 0, 0, 0]]"

section \<open>Parameters, priors and the likelihood engine\<close>

text \<open>
  The notebook only calls the library (\<^verbatim>\<open>parameter.LinearExp\<close>, \<^verbatim>\<open>signal_base.PTA\<close>,
  \<^verbatim>\<open>pta.set_default_params\<close>, \<^verbatim>\<open>pta.get_lnlikelihood\<close>, \<^verbatim>\<open>pta.get_lnprior\<close>); the
  library's own modules are not among the sources. The definitions of this section follow
  the specification's description of them.
\<close>

text \<open>
  Modelled from the spec: the value of a log-density, which the missing
  \<^verbatim>\<open>log_density\<close> and \<^verbatim>\<open>get_lnprior\<close> return: a real number or minus infinity. A sum
  with minus infinity is minus infinity.
\<close>

datatype lnval = NegInf | Fin real

text \<open>
  Modelled from the spec: the sum of two log-densities, as the missing \<^verbatim>\<open>get_lnprior\<close>
  forms it (minus infinity if any value is outside its support).
\<close>

fun ln_add :: "lnval \<Rightarrow> lnval \<Rightarrow> lnval" where
  "ln_add (Fin a) (Fin b) = Fin (a + b)"
| "ln_add NegInf b = NegInf"
| "ln_add a NegInf = NegInf"

text \<open>
  Modelled from the spec: the missing class \<^verbatim>\<open>Parameter\<close> with its prior kinds Uniform,
  LinearExp and Constant (section 3). A sampled prior has its bounds \<open>low\<close> and \<open>high\<close>; a
  Constant has an optional fixed value. A parameter is its name with its kind; the name
  stands for the identity of the instance.
\<close>

datatype dist = Uniform real real | LinearExp real real

datatype kind = Free dist | Constant "real option"

type_synonym parameter = "string \<times> kind"

text \<open>
  Modelled from the spec: the missing support test of a prior, the closed range from
  \<open>low\<close> to \<open>high\<close>.
\<close>

fun in_support :: "dist \<Rightarrow> real \<Rightarrow> bool" where
  "in_support (Uniform low high) x \<longleftrightarrow> low \<le> x \<and> x \<le> high"
| "in_support (LinearExp low high) x \<longleftrightarrow> low \<le> x \<and> x \<le> high"

text \<open>
  Modelled from the spec: the missing density of a prior (section 4.1): for LinearExp
  \<^verbatim>\<open>pdf(x) = ln(10) * 10^x / (10^high - 10^low)\<close> inside the range and 0 outside; for Uniform
  the constant density on the range.
\<close>

fun pdf :: "dist \<Rightarrow> real \<Rightarrow> real" where
  "pdf (Uniform low high) x = (if low \<le> x \<and> x \<le> high then 1 / (high - low) else 0)"
| "pdf (LinearExp low high) x =
     (if low \<le> x \<and> x \<le> high then ln 10 * 10 powr x / (10 powr high - 10 powr low) else 0)"

text \<open>
  Modelled from the spec: the missing \<^verbatim>\<open>log_density\<close> (section 4.1), which returns the log
  of the prior density at \<open>x\<close>, or minus infinity outside the support.
\<close>

definition log_density :: "dist \<Rightarrow> real \<Rightarrow> lnval" where
  "log_density d x = (if in_support d x then Fin (ln (pdf d x)) else NegInf)"

text \<open>
  The integral of a density over a range, as the increase of an antiderivative over it
  (the fundamental theorem of calculus read as a definition).
\<close>

definition integrates_to :: "(real \<Rightarrow> real) \<Rightarrow> real \<Rightarrow> real \<Rightarrow> real \<Rightarrow> bool" where
  "integrates_to f a b v \<longleftrightarrow>
     (\<exists>G. (\<forall>x. a \<le> x \<and> x \<le> b \<longrightarrow> (G has_real_derivative f x) (at x)) \<and> G b - G a = v)"

text \<open>
  Modelled from the spec: the failures of the missing likelihood engine (section 7).
\<close>

datatype engine_error = MissingParameterError | NonPositiveDefiniteError

text \<open>
  Modelled from the spec: the missing \<^verbatim>\<open>SignalCollection\<close> of one series (sections 3, 4.3
  and 9). Its signals declare the parameters they need, the \<open>slots\<close>; \<open>kernel\<close> is the
  series' log-likelihood as a function of the values of its slots, in their order, and is
  \<open>None\<close> when a covariance does not factorize. Its first argument asks for the diagonal
  regularization of the retry.
\<close>

record series =
  slots :: "parameter list"
  kernel :: "bool \<Rightarrow> real list \<Rightarrow> real option"

text \<open>
  Modelled from the spec: the missing class \<^verbatim>\<open>PTA\<close> (section 3): the ordered list of the
  series' collections, and the default values registered by \<^verbatim>\<open>set_default_params\<close>.
\<close>

record pta =
  collections :: "series list"
  defaults :: "string \<rightharpoonup> real"

text \<open>
  Modelled from the spec: the missing \<^verbatim>\<open>set_default_params\<close> (section 4.4), which
  registers the mapping from which Constant parameters are resolved.
\<close>

definition set_default_params :: "pta \<Rightarrow> (string \<rightharpoonup> real) \<Rightarrow> pta" where
  "set_default_params p m = p\<lparr>defaults := m\<rparr>"

text \<open>
  Modelled from the spec: the free parameters among the slots of the missing collections;
  a Constant never appears in the sampler's coordinate space (section 3).
\<close>

fun free_of :: "parameter list \<Rightarrow> (string \<times> dist) list" where
  "free_of [] = []"
| "free_of ((n, Free d) # ps) = (n, d) # free_of ps"
| "free_of ((n, Constant c) # ps) = free_of ps"

text \<open>
  Modelled from the spec: the deduplication of the missing registry (section 3): each name
  once, at its first encounter.
\<close>

fun first_seen :: "(string \<times> dist) list \<Rightarrow> (string \<times> dist) list" where
  "first_seen [] = []"
| "first_seen ((n, d) # ps) = (n, d) # filter (\<lambda>q. fst q \<noteq> n) (first_seen ps)"

text \<open>
  Modelled from the spec: the missing registry \<^verbatim>\<open>params\<close> of the PTA (sections 3 and
  4.4): the free parameters of all collections, deduplicated, in the order of first
  encounter.
\<close>

definition pta_params :: "pta \<Rightarrow> (string \<times> dist) list" where
  "pta_params p = first_seen (free_of (concat (map slots (collections p))))"

text \<open>
  Modelled from the spec: the sum of the missing \<^verbatim>\<open>get_lnprior\<close> (section 4.4) over a
  registry: the log-density of every parameter at its value in \<open>x\<close>. The specification
  does not say what happens when \<open>x\<close> lacks a name of the registry; here that is the
  failure of an unresolved parameter.
\<close>

fun lnprior_sum :: "(string \<times> dist) list \<Rightarrow> (string \<rightharpoonup> real) \<Rightarrow> engine_error + lnval" where
  "lnprior_sum [] x = Inr (Fin 0)"
| "lnprior_sum ((n, d) # ps) x =
     (case x n of
        None \<Rightarrow> Inl MissingParameterError
      | Some v \<Rightarrow>
          (case lnprior_sum ps x of
             Inl e \<Rightarrow> Inl e
           | Inr l \<Rightarrow> Inr (ln_add (log_density d v) l)))"

text \<open>
  Modelled from the spec: the missing \<^verbatim>\<open>get_lnprior\<close> (section 4.4), the sum over the
  PTA's parameter registry.
\<close>

definition get_lnprior :: "pta \<Rightarrow> (string \<rightharpoonup> real) \<Rightarrow> engine_error + lnval" where
  "get_lnprior p x = lnprior_sum (pta_params p) x"

text \<open>
  Modelled from the spec: the missing resolution of a parameter at likelihood evaluation
  (sections 4.1 and 4.4): a free parameter takes its value from \<open>x\<close>, a Constant its fixed
  value, or, without one, its value in the registered defaults.
\<close>

fun resolve :: "(string \<rightharpoonup> real) \<Rightarrow> (string \<rightharpoonup> real) \<Rightarrow> parameter \<Rightarrow> real option" where
  "resolve dflt x (n, Free d) = x n"
| "resolve dflt x (n, Constant (Some v)) = Some v"
| "resolve dflt x (n, Constant None) = dflt n"

text \<open>
  Modelled from the spec: the resolution of all slots of a missing collection, which fails
  as soon as one parameter cannot be resolved.
\<close>

fun resolve_all ::
  "(string \<rightharpoonup> real) \<Rightarrow> (string \<rightharpoonup> real) \<Rightarrow> parameter list \<Rightarrow> real list option"
where
  "resolve_all dflt x [] = Some []"
| "resolve_all dflt x (p # ps) =
     (case resolve dflt x p of
        None \<Rightarrow> None
      | Some v \<Rightarrow> (case resolve_all dflt x ps of None \<Rightarrow> None | Some vs \<Rightarrow> Some (v # vs)))"

text \<open>
  Modelled from the spec: the missing evaluation of one series (sections 4.4 and 7): a
  factorization that fails is retried once with the diagonal regularization, and a second
  failure is the NonPositiveDefiniteError of the call.
\<close>

definition series_lnlikelihood :: "series \<Rightarrow> real list \<Rightarrow> engine_error + real" where
  "series_lnlikelihood s vs =
     (case kernel s False vs of
        Some l \<Rightarrow> Inr l
      | None \<Rightarrow>
          (case kernel s True vs of
             Some l \<Rightarrow> Inr l
           | None \<Rightarrow> Inl NonPositiveDefiniteError))"

text \<open>
  Modelled from the spec: the resolution of the parameters of every series, the first
  step of the missing \<^verbatim>\<open>get_lnlikelihood\<close> (section 4.4).
\<close>

fun resolve_collections ::
  "(string \<rightharpoonup> real) \<Rightarrow> (string \<rightharpoonup> real) \<Rightarrow> series list \<Rightarrow> real list list option"
where
  "resolve_collections dflt x [] = Some []"
| "resolve_collections dflt x (s # ss) =
     (case resolve_all dflt x (slots s) of
        None \<Rightarrow> None
      | Some vs \<Rightarrow>
          (case resolve_collections dflt x ss of None \<Rightarrow> None | Some vss \<Rightarrow> Some (vs # vss)))"

text \<open>
  Modelled from the spec: the sum of the series' log-likelihoods (section 4.4), the first
  failure of a series being the failure of the sum.
\<close>

fun sum_series :: "(engine_error + real) list \<Rightarrow> engine_error + real" where
  "sum_series [] = Inr 0"
| "sum_series (c # cs) =
     (case c of
        Inl e \<Rightarrow> Inl e
      | Inr l \<Rightarrow> (case sum_series cs of Inl e \<Rightarrow> Inl e | Inr t \<Rightarrow> Inr (l + t)))"

text \<open>
  Modelled from the spec: the missing \<^verbatim>\<open>get_lnlikelihood\<close> (section 4.4): the parameters
  of every series are resolved, and the call fails with MissingParameterError if one of
  them cannot be; otherwise the log-likelihoods of the series are summed, in their order.
\<close>

definition get_lnlikelihood :: "pta \<Rightarrow> (string \<rightharpoonup> real) \<Rightarrow> engine_error + real" where
  "get_lnlikelihood p x =
     (case resolve_collections (defaults p) x (collections p) of
        None \<Rightarrow> Inl MissingParameterError
      | Some vss \<Rightarrow>
          sum_series (map (\<lambda>(s, vs). series_lnlikelihood s vs) (zip (collections p) vss)))"

text \<open>
  Modelled from the spec: the contribution of one series to the log-likelihood (sections
  4.4 and 8): its own parameters resolved, then its log-likelihood evaluated.
\<close>

definition contribution ::
  "(string \<rightharpoonup> real) \<Rightarrow> (string \<rightharpoonup> real) \<Rightarrow> series \<Rightarrow> engine_error + real"
where
  "contribution dflt x s =
     (case resolve_all dflt x (slots s) of
        None \<Rightarrow> Inl MissingParameterError
      | Some vs \<Rightarrow> series_lnlikelihood s vs)"

text \<open>
  A model in the shape of the notebook's: per series a Constant EFAC without a fixed value
  and a red-noise amplitude of its own, and for all series the one amplitude
  \<^verbatim>\<open>log10_A_gw\<close> and the Constant \<^verbatim>\<open>gamma_gw\<close> fixed at 4.33. The kernel is a stand-in.
\<close>

definition demo_series :: "string \<Rightarrow> series" where
  "demo_series psr =
     \<lparr>slots = [(psr @ ''_efac'', Constant None),
               (psr @ ''_log10_A'', Free (LinearExp (- 20) (- 12))),
               (''log10_A_gw'', Free (LinearExp (- 18) (- 12))),
               (''gamma_gw'', Constant (Some (433 / 100)))],
      kernel = (\<lambda>reg vs. Some (- sum_list vs))\<rparr>"

definition demo_pta :: pta where
  "demo_pta = \<lparr>collections = [demo_series ''A'', demo_series ''B''], defaults = Map.empty\<rparr>"

definition demo_x :: "string \<rightharpoonup> real" where
  "demo_x = [''A_log10_A'' \<mapsto> - 15, ''log10_A_gw'' \<mapsto> - 19, ''B_log10_A'' \<mapsto> - 13]"

text \<open>
  The same model with both EFACs set to 1, and a mapping that gives the two series the same
  red-noise amplitude: the two series then resolve to the same values.
\<close>

definition demo_twins :: pta where
  "demo_twins = set_default_params demo_pta [''A_efac'' \<mapsto> 1, ''B_efac'' \<mapsto> 1]"

definition demo_y :: "string \<rightharpoonup> real" where
  "demo_y = [''A_log10_A'' \<mapsto> - 15, ''log10_A_gw'' \<mapsto> - 19, ''B_log10_A'' \<mapsto> - 15]"

section \<open>The marginal likelihood of one series\<close>

text \<open>
  Matrices and vectors over the reals, as functions of their indices; a matrix is used with
  its numbers of rows and columns, and its entries beyond them do not matter.
\<close>

type_synonym mat = "nat \<Rightarrow> nat \<Rightarrow> real"

definition mmul :: "nat \<Rightarrow> mat \<Rightarrow> mat \<Rightarrow> mat" where
  "mmul m A B = (\<lambda>i j. \<Sum>l<m. A i l * B l j)"

definition madd :: "mat \<Rightarrow> mat \<Rightarrow> mat" where
  "madd A B = (\<lambda>i j. A i j + B i j)"

definition mneg :: "mat \<Rightarrow> mat" where
  "mneg A = (\<lambda>i j. - A i j)"

definition mtranspose :: "mat \<Rightarrow> mat" where
  "mtranspose A = (\<lambda>i j. A j i)"

definition mone :: mat where
  "mone = (\<lambda>i j. if i = j then 1 else 0)"

definition mzero :: mat where
  "mzero = (\<lambda>i j. 0)"

text \<open>Equality of two matrices on their first \<open>n\<close> rows and \<open>m\<close> columns.\<close>

definition meq :: "nat \<Rightarrow> nat \<Rightarrow> mat \<Rightarrow> mat \<Rightarrow> bool" where
  "meq n m A B \<longleftrightarrow> (\<forall>i<n. \<forall>j<m. A i j = B i j)"

text \<open>\<open>B\<close> is the inverse of the \<open>n\<close> by \<open>n\<close> matrix \<open>A\<close>.\<close>

definition inverse_of :: "nat \<Rightarrow> mat \<Rightarrow> mat \<Rightarrow> bool" where
  "inverse_of n A B \<longleftrightarrow>
     (\<forall>i<n. \<forall>j<n. mmul n A B i j = mone i j \<and> mmul n B A i j = mone i j)"

definition symmetric :: "nat \<Rightarrow> mat \<Rightarrow> bool" where
  "symmetric n A \<longleftrightarrow> (\<forall>i<n. \<forall>j<n. A i j = A j i)"

text \<open>
  The determinant of the leading \<open>n\<close> by \<open>n\<close> block, by expansion along the first column;
  \<open>minor i A\<close> is \<open>A\<close> without its row \<open>i\<close> and its first column.
\<close>

definition minor :: "nat \<Rightarrow> mat \<Rightarrow> mat" where
  "minor i A = (\<lambda>r c. A (if r < i then r else Suc r) (Suc c))"

fun det :: "nat \<Rightarrow> mat \<Rightarrow> real" where
  "det 0 A = 1"
| "det (Suc n) A = (\<Sum>i\<le>n. (- 1) ^ i * A i 0 * det n (minor i A))"

text \<open>The matrix of four blocks, the upper left one \<open>n\<close> by \<open>n\<close>.\<close>

definition block :: "nat \<Rightarrow> mat \<Rightarrow> mat \<Rightarrow> mat \<Rightarrow> mat \<Rightarrow> mat" where
  "block n A B C D =
     (\<lambda>i j. if i < n then (if j < n then A i j else B i (j - n))
            else (if j < n then C (i - n) j else D (i - n) (j - n)))"

text \<open>The quadratic form \<open>r\<^sup>T A r\<close> of a vector of length \<open>n\<close>.\<close>

definition quad :: "nat \<Rightarrow> (nat \<Rightarrow> real) \<Rightarrow> mat \<Rightarrow> real" where
  "quad n r A = (\<Sum>i<n. \<Sum>j<n. r i * A i j * r j)"

text \<open>
  Modelled from the spec: the matrix \<open>\<Sigma> = \<Phi>\<^sup>-\<^sup>1 + F\<^sup>T N\<^sup>-\<^sup>1 F\<close> of section 4.4, which the
  missing likelihood engine factorizes; \<open>F\<close> has \<open>n\<close> rows, one per residual, and one column
  per basis function. The inverses are arguments: the engine has them from its
  factorizations.
\<close>

definition woodbury_sigma :: "nat \<Rightarrow> mat \<Rightarrow> mat \<Rightarrow> mat \<Rightarrow> mat" where
  "woodbury_sigma n F Ninv Phiinv = madd Phiinv (mmul n (mtranspose F) (mmul n Ninv F))"

text \<open>Modelled from the spec: the vector \<open>F\<^sup>T N\<^sup>-\<^sup>1 r\<close> of the same formula.\<close>

definition projected :: "nat \<Rightarrow> mat \<Rightarrow> mat \<Rightarrow> (nat \<Rightarrow> real) \<Rightarrow> nat \<Rightarrow> real" where
  "projected n F Ninv r = (\<lambda>a. \<Sum>i<n. mmul n (mtranspose F) Ninv a i * r i)"

text \<open>
  Modelled from the spec: the log-likelihood of one series in the Woodbury form of
  section 4.4, which the missing \<^verbatim>\<open>get_lnlikelihood\<close> computes for \<open>n\<close> residuals \<open>r\<close> and
  \<open>k\<close> basis columns:
  \<^verbatim>\<open>-0.5 * [r'N^-1 r - (F'N^-1 r)' Sigma^-1 (F'N^-1 r) + log|N| + log|Phi| + log|Sigma|]\<close>.
\<close>

definition woodbury_lnlikelihood ::
  "nat \<Rightarrow> nat \<Rightarrow> (nat \<Rightarrow> real) \<Rightarrow> mat \<Rightarrow> mat \<Rightarrow> mat \<Rightarrow> mat \<Rightarrow> mat \<Rightarrow> mat \<Rightarrow> real"
where
  "woodbury_lnlikelihood n k r F N Phi Ninv Phiinv Sigmainv =
     - (1 / 2) *
       (quad n r Ninv - quad k (projected n F Ninv r) Sigmainv +
        ln \<bar>det n N\<bar> + ln \<bar>det k Phi\<bar> + ln \<bar>det k (woodbury_sigma n F Ninv Phiinv)\<bar>)"

text \<open>
  Modelled from the spec: the dense covariance \<open>N + F \<Phi> F\<^sup>T\<close> of the observations
  (sections 4.4 and 8), and the brute-force log-likelihood that inverts it,
  \<^verbatim>\<open>-0.5 * [r'C^-1 r + log|C|]\<close>, with the same constant left out as in the Woodbury form.
\<close>

definition dense_cov :: "nat \<Rightarrow> mat \<Rightarrow> mat \<Rightarrow> mat \<Rightarrow> mat" where
  "dense_cov k N F Phi = madd N (mmul k F (mmul k Phi (mtranspose F)))"

definition dense_lnlikelihood ::
  "nat \<Rightarrow> nat \<Rightarrow> (nat \<Rightarrow> real) \<Rightarrow> mat \<Rightarrow> mat \<Rightarrow> mat \<Rightarrow> mat \<Rightarrow> real"
where
  "dense_lnlikelihood n k r F N Phi Cinv =
     - (1 / 2) * (quad n r Cinv + ln \<bar>det n (dense_cov k N F Phi)\<bar>)"

text \<open>The inverse of the dense covariance that the Woodbury identity gives.\<close>

definition woodbury_inverse :: "nat \<Rightarrow> nat \<Rightarrow> mat \<Rightarrow> mat \<Rightarrow> mat \<Rightarrow> mat" where
  "woodbury_inverse n k F Ninv Sigmainv =
     madd Ninv (mneg (mmul k (mmul k (mmul n Ninv F) Sigmainv) (mmul n (mtranspose F) Ninv)))"

text \<open>
  A series of two residuals with one basis column, written by rows: its covariances and
  their inverses.
\<close>

definition mat_of_rows :: "real list list \<Rightarrow> mat" where
  "mat_of_rows rows =
     (\<lambda>i j. if i < length rows \<and> j < length (rows ! i) then rows ! i ! j else 0)"

definition vec_of_list :: "real list \<Rightarrow> nat \<Rightarrow> real" where
  "vec_of_list xs = (\<lambda>i. if i < length xs then xs ! i else 0)"

definition demo_N :: mat where
  "demo_N = mat_of_rows [[2, 0], [0, 4]]"

definition demo_Ninv :: mat where
  "demo_Ninv = mat_of_rows [[1 / 2, 0], [0, 1 / 4]]"

definition demo_F :: mat where
  "demo_F = mat_of_rows [[1], [1]]"

definition demo_Phi :: mat where
  "demo_Phi = mat_of_rows [[4]]"

definition demo_Phiinv :: mat where
  "demo_Phiinv = mat_of_rows [[1 / 4]]"

definition demo_Sigmainv :: mat where
  "demo_Sigmainv = mat_of_rows [[1]]"

definition demo_Cinv :: mat where
  "demo_Cinv = mat_of_rows [[1 / 4, - 1 / 8], [- 1 / 8, 3 / 16]]"

definition demo_r :: "nat \<Rightarrow> real" where
  "demo_r = vec_of_list [1, 2]"

section \<open>Properties of the noise-file parser\<close>

lemma classify_Named:
  assumes "classify line = Inr (Named par flag)"
  shows "par \<in> {''efac'', ''log10_equad'', ''log10_ecorr'', ''log10_A'', ''gamma''}"
    and "par \<in> {''log10_A'', ''gamma''} \<longrightarrow> flag = []"
  using assms unfolding classify_def Let_def
  by (auto split: if_splits sum.splits)

lemma classify_Break:
  "classify line = Inr Break \<longleftrightarrow>
     \<not> contains ''efac'' line \<and> \<not> contains ''equad'' line \<and> \<not> contains ''jitter_q'' line \<and>
     \<not> contains ''RN-Amplitude'' line \<and> \<not> contains ''RN-spectral-index'' line"
  unfolding classify_def Let_def
  by (auto split: if_splits sum.splits)

lemma pname_of_eq:
  "pname_of psrname flag par =
     (if flag = [] then psrname @ ''_'' @ par else psrname @ ''_'' @ flag @ ''_'' @ par)"
  by (simp add: pname_of_def)

text \<open>Every key of the loop's result was there at the start or comes from a line read.\<close>

lemma noise_loop_keys:
  assumes "noise_loop float_of psrname lines params = Inr res" and "k \<in> dom res"
  shows "k \<in> dom params \<or>
         (\<exists>line \<in> set lines. \<exists>par flag.
            classify line = Inr (Named par flag) \<and> k = pname_of psrname flag par)"
  using assms
proof (induction lines arbitrary: params)
  case Nil
  then show ?case by simp
next
  case (Cons line rest)
  show ?case
  proof (cases "classify line")
    case (Inl e)
    with Cons.prems show ?thesis by simp
  next
    case (Inr b)
    show ?thesis
    proof (cases b)
      case Break
      with Inr Cons.prems show ?thesis by simp
    next
      case (Named par flag)
      with Inr Cons.prems obtain v where
        run: "noise_loop float_of psrname rest (params(pname_of psrname flag par \<mapsto> v)) = Inr res"
        by (auto split: sum.splits option.splits)
      from Cons.IH [OF run Cons.prems(2)] Inr Named show ?thesis
        by (auto split: if_splits)
    qed
  qed
qed

text \<open>The loop never looks past a line on which it breaks.\<close>

lemma noise_loop_break:
  assumes "classify bad = Inr Break"
  shows "noise_loop float_of psrname (pre @ bad # post) params =
         noise_loop float_of psrname pre params"
  using assms
  by (induction pre arbitrary: params) (auto split: sum.splits option.splits branch.splits)

text \<open>The parser run on the lines of a small noise file for the pulsar B1855+09.\<close>

lemma demo_psrname: "psrname_of ''ng9/B1855+09_noise.txt'' = Inr ''B1855+09''"
  by code_simp

lemma demo_classify:
  "classify ''efac-430_ASP 1.05\<newline>'' = Inr (Named ''efac'' ''430_ASP'')"
  "classify ''# red noise\<newline>'' = Inr Break"
  "classify ''RN-Amplitude -14.0\<newline>'' = Inr (Named ''log10_A'' [])"
  by code_simp+

lemma demo_value:
  "item (split_ws ''efac-430_ASP 1.05\<newline>'') 1 = Inr ''1.05''"
  "item (split_ws ''RN-Amplitude -14.0\<newline>'') 1 = Inr ''-14.0''"
  by code_simp+

lemma demo_pname:
  "pname_of ''B1855+09'' ''430_ASP'' ''efac'' = ''B1855+09_430_ASP_efac''"
  "pname_of ''B1855+09'' [] ''log10_A'' = ''B1855+09_log10_A''"
  by code_simp+

lemma demo_unrecognized:
  "\<not> contains ''efac'' ''# red noise\<newline>''"
  "\<not> contains ''equad'' ''# red noise\<newline>''"
  "\<not> contains ''jitter_q'' ''# red noise\<newline>''"
  "\<not> contains ''RN-Amplitude'' ''# red noise\<newline>''"
  "\<not> contains ''RN-spectral-index'' ''# red noise\<newline>''"
  by code_simp+

lemma demo_run:
  "get_noise_from_pal2 (map_of [(''1.05'', 21 / 20), (''-14.0'', - 14 :: real)])
     ''ng9/B1855+09_noise.txt'' [''efac-430_ASP 1.05\<newline>'', ''RN-Amplitude -14.0\<newline>'']
   = Inr [''B1855+09_430_ASP_efac'' \<mapsto> 21 / 20, ''B1855+09_log10_A'' \<mapsto> - 14]"
  by (simp add: get_noise_from_pal2_def demo_psrname demo_classify demo_value demo_pname)

text \<open>
  Claim C7. Whenever \<^verbatim>\<open>get_noise_from_pal2\<close> returns a mapping, each of its keys comes from
  one line of the file, and is the series name, the backend flag parsed from that line and
  the quantity joined by single underscores when the flag is not empty, and the series name
  and the quantity joined by one underscore when it is empty. The quantity is one of the
  five names the parser assigns, and the two red-noise quantities never carry a flag.
\<close>

theorem get_noise_from_pal2_key_convention:
  assumes "get_noise_from_pal2 float_of noisefile lines = Inr params" and "k \<in> dom params"
  shows "\<exists>psrname line par flag.
           psrname_of noisefile = Inr psrname \<and> line \<in> set lines \<and>
           classify line = Inr (Named par flag) \<and>
           par \<in> {''efac'', ''log10_equad'', ''log10_ecorr'', ''log10_A'', ''gamma''} \<and>
           (par \<in> {''log10_A'', ''gamma''} \<longrightarrow> flag = []) \<and>
           k = (if flag = [] then psrname @ ''_'' @ par
                else psrname @ ''_'' @ flag @ ''_'' @ par)"
proof -
  from assms(1) obtain psrname where
    psr: "psrname_of noisefile = Inr psrname" and
    run: "noise_loop float_of psrname lines Map.empty = Inr params"
    by (auto simp: get_noise_from_pal2_def split: sum.splits)
  from noise_loop_keys [OF run assms(2)] obtain line par flag where
    line: "line \<in> set lines" "classify line = Inr (Named par flag)" and
    k: "k = pname_of psrname flag par"
    by auto
  from k have "k = (if flag = [] then psrname @ ''_'' @ par
                    else psrname @ ''_'' @ flag @ ''_'' @ par)"
    by (simp only: pname_of_eq)
  with psr line classify_Named [OF line(2)] show ?thesis
    by (intro exI conjI)
qed

theorem get_noise_from_pal2_key_convention_witness:
  "get_noise_from_pal2 (map_of [(''1.05'', 21 / 20), (''-14.0'', - 14 :: real)])
     ''ng9/B1855+09_noise.txt'' [''efac-430_ASP 1.05\<newline>'', ''RN-Amplitude -14.0\<newline>'']
   = Inr [''B1855+09_430_ASP_efac'' \<mapsto> 21 / 20, ''B1855+09_log10_A'' \<mapsto> - 14] \<and>
   ''B1855+09_430_ASP_efac''
     \<in> dom [''B1855+09_430_ASP_efac'' \<mapsto> 21 / 20 :: real, ''B1855+09_log10_A'' \<mapsto> - 14] \<and>
   (\<exists>psrname line par flag.
      psrname_of ''ng9/B1855+09_noise.txt'' = Inr psrname \<and>
      line \<in> set [''efac-430_ASP 1.05\<newline>'', ''RN-Amplitude -14.0\<newline>''] \<and>
      classify line = Inr (Named par flag) \<and>
      par \<in> {''efac'', ''log10_equad'', ''log10_ecorr'', ''log10_A'', ''gamma''} \<and>
      (par \<in> {''log10_A'', ''gamma''} \<longrightarrow> flag = []) \<and>
      ''B1855+09_430_ASP_efac'' =
        (if flag = [] then psrname @ ''_'' @ par else psrname @ ''_'' @ flag @ ''_'' @ par))"
proof -
  have k: "''B1855+09_430_ASP_efac''
     \<in> dom [''B1855+09_430_ASP_efac'' \<mapsto> 21 / 20 :: real, ''B1855+09_log10_A'' \<mapsto> - 14]"
    by simp
  show ?thesis
    by (rule conjI [OF demo_run conjI [OF k get_noise_from_pal2_key_convention [OF demo_run k]]])
qed

text \<open>
  Claim C8. A line that contains none of the five recognized substrings ends the loop: the
  result for a file is the result for the lines before its first such line, whatever comes
  after it, recognized or not. This covers the returned mapping and a raised exception
  alike.
\<close>

theorem get_noise_from_pal2_stops_at_unrecognized:
  assumes "\<not> contains ''efac'' bad" and "\<not> contains ''equad'' bad"
    and "\<not> contains ''jitter_q'' bad" and "\<not> contains ''RN-Amplitude'' bad"
    and "\<not> contains ''RN-spectral-index'' bad"
  shows "get_noise_from_pal2 float_of noisefile (pre @ bad # post) =
         get_noise_from_pal2 float_of noisefile pre"
proof -
  from assms have "classify bad = Inr Break"
    by (simp add: classify_Break)
  then show ?thesis
    by (simp add: get_noise_from_pal2_def noise_loop_break split: sum.splits)
qed

theorem get_noise_from_pal2_stops_at_unrecognized_witness:
  "(\<not> contains ''efac'' ''# red noise\<newline>'' \<and> \<not> contains ''equad'' ''# red noise\<newline>'' \<and>
    \<not> contains ''jitter_q'' ''# red noise\<newline>'' \<and> \<not> contains ''RN-Amplitude'' ''# red noise\<newline>'' \<and>
    \<not> contains ''RN-spectral-index'' ''# red noise\<newline>'') \<and>
   get_noise_from_pal2 (map_of [(''1.05'', 21 / 20), (''-14.0'', - 14 :: real)])
     ''ng9/B1855+09_noise.txt''
     ([''efac-430_ASP 1.05\<newline>''] @ ''# red noise\<newline>'' # [''RN-Amplitude -14.0\<newline>'']) =
   get_noise_from_pal2 (map_of [(''1.05'', 21 / 20), (''-14.0'', - 14 :: real)])
     ''ng9/B1855+09_noise.txt'' [''efac-430_ASP 1.05\<newline>'']"
  by (intro conjI demo_unrecognized
        get_noise_from_pal2_stops_at_unrecognized [OF demo_unrecognized])

section \<open>Properties of the jump groups\<close>

text \<open>The list that \<open>range3\<close> builds, in closed form.\<close>

lemma range3_count:
  assumes "0 < step" "start < stop"
  shows "(stop - start + step - 1) div step = Suc ((stop - (start + step) + step - 1) div step)"
proof (cases "start + step \<le> stop")
  case True
  define m where "m = stop - (start + step) + step - 1"
  from True assms have "stop - start + step - 1 = m + step"
    by (simp add: m_def)
  then have "(stop - start + step - 1) div step = (m + step) div step"
    by (rule arg_cong)
  also from assms(1) have "\<dots> = Suc (m div step)"
    by simp
  finally show ?thesis
    by (simp only: m_def)
next
  case False
  with assms have "stop - (start + step) = 0" by simp
  moreover from False assms have
    "step * 1 \<le> stop - start + step - 1" "stop - start + step - 1 < step * Suc 1"
    by simp_all
  then have "(stop - start + step - 1) div step = 1"
    by (rule div_nat_eqI)
  ultimately show ?thesis using assms by simp
qed

lemma range3_eq:
  "0 < step \<Longrightarrow>
   range3 start stop step =
     map (\<lambda>k. start + k * step) [0..<(stop - start + step - 1) div step]"
proof (induction start stop step rule: range3.induct)
  case (1 start stop step)
  show ?case
  proof (cases "stop \<le> start")
    case True
    with 1 show ?thesis by (simp add: range3.simps)
  next
    case False
    with 1 have IH: "range3 (start + step) stop step =
        map (\<lambda>k. start + step + k * step) [0..<(stop - (start + step) + step - 1) div step]"
      by simp
    have cnt: "(stop - start + step - 1) div step =
        Suc ((stop - (start + step) + step - 1) div step)"
      by (rule range3_count) (use False 1(2) in simp_all)
    from False 1(2) have "range3 start stop step = start # range3 (start + step) stop step"
      by (subst range3.simps) simp
    then show ?thesis unfolding IH cnt map_upt_Suc
      by (simp add: add.assoc)
  qed
qed

lemma range3_one: "range3 0 n (Suc 0) = [0..<n]"
  by (simp add: range3_eq map_idI)

lemma range3_evens: "range3 0 n 2 = map (\<lambda>k. 2 * k) [0..<(n + 1) div 2]"
  by (simp add: range3_eq mult.commute)

lemma range3_odds: "range3 1 n 2 = map (\<lambda>k. 2 * k + 1) [0..<n div 2]"
  by (cases n) (simp_all add: range3_eq mult.commute)

lemma zip_upt: "b \<le> a \<Longrightarrow> zip [0..<a] [0..<b] = map (\<lambda>k. (k, k)) [0..<b]"
  by (rule nth_equalityI) simp_all

lemma pair_groups_eq: "pair_groups n = map (\<lambda>k. [2 * k, 2 * k + 1]) [0..<n div 2]"
proof -
  have "n div 2 \<le> (n + 1) div 2" by simp
  then show ?thesis
    unfolding pair_groups_def range3_evens range3_odds zip_map_map 
    by (simp add: zip_upt)
qed

lemma in_pair_groups:
  "(\<exists>g \<in> set (pair_groups n). i \<in> set g) \<longleftrightarrow> i < 2 * (n div 2)"
proof
  assume "\<exists>g \<in> set (pair_groups n). i \<in> set g"
  then obtain k where "k < n div 2" "i = 2 * k \<or> i = 2 * k + 1"
    unfolding pair_groups_eq by auto
  then show "i < 2 * (n div 2)" by linarith
next
  assume "i < 2 * (n div 2)"
  then have k: "i div 2 < n div 2"
    by (simp add: less_mult_imp_div_less mult.commute)
  have "i = 2 * (i div 2) + i mod 2" by simp
  then have "i = 2 * (i div 2) \<or> i = 2 * (i div 2) + 1"
    by (cases "i mod 2 = 0") auto
  then have "i \<in> set [2 * (i div 2), 2 * (i div 2) + 1]" by simp
  moreover from k have "[2 * (i div 2), 2 * (i div 2) + 1] \<in> set (pair_groups n)"
    unfolding pair_groups_eq by simp
  ultimately show "\<exists>g \<in> set (pair_groups n). i \<in> set g" by blast
qed

lemma set_pair_groups: "(\<Union>g \<in> set (pair_groups n). set g) = {0..<2 * (n div 2)}"
proof (rule set_eqI)
  fix i
  show "i \<in> (\<Union>g \<in> set (pair_groups n). set g) \<longleftrightarrow> i \<in> {0..<2 * (n div 2)}"
    by (simp only: UN_iff in_pair_groups atLeastLessThan_iff le0 simp_thms)
qed

lemma pairwise_disjoint_pair_groups: "pairwise_disjoint (pair_groups n)"
  unfolding pairwise_disjoint_def
proof (intro allI impI)
  fix a b
  assume "a < length (pair_groups n)" "b < length (pair_groups n)" "a \<noteq> b"
  then have "pair_groups n ! a = [2 * a, 2 * a + 1]" "pair_groups n ! b = [2 * b, 2 * b + 1]"
    by (simp_all add: pair_groups_eq)
  moreover from \<open>a \<noteq> b\<close> have
    "2 * a \<noteq> 2 * b" "2 * a \<noteq> 2 * b + 1" "2 * a + 1 \<noteq> 2 * b"
    by presburger+
  ultimately show "set (pair_groups n ! a) \<inter> set (pair_groups n ! b) = {}"
    by simp
qed


lemma groups_first: "groups ndim ! 0 = [0..<ndim]"
  by (simp add: groups_def range3_one)

lemma groups_second: "2 \<le> ndim \<Longrightarrow> groups ndim ! Suc 0 = [0, 1]"
proof -
  assume "2 \<le> ndim"
  then have "0 < ndim div 2" by simp
  then have "pair_groups ndim ! 0 = [0, 1]"
    by (simp add: pair_groups_eq)
  moreover from \<open>0 < ndim div 2\<close> have "0 < length (pair_groups ndim)"
    by (simp add: pair_groups_eq)
  ultimately show ?thesis
    by (simp add: groups_def nth_append)
qed

lemma length_groups: "length (groups ndim) = ndim div 2 + 2"
  by (simp add: groups_def pair_groups_eq)

lemma last_groups: "last (groups ndim) = [36]"
  by (simp add: groups_def)

lemma covers_groups: "covers (groups ndim) ndim"
  unfolding covers_def
proof (intro allI impI)
  fix i
  assume "i < ndim"
  then have "i \<in> set [0..<ndim]" by simp
  moreover have "[0..<ndim] \<in> set (groups ndim)"
    by (simp add: groups_def range3_one)
  ultimately show "\<exists>g \<in> set (groups ndim). i \<in> set g" by blast
qed

lemma groups_overlap:
  assumes "2 \<le> ndim"
  shows "\<not> pairwise_disjoint (groups ndim)"
proof
  assume "pairwise_disjoint (groups ndim)"
  moreover have "0 < length (groups ndim)" "1 < length (groups ndim)"
    by (simp_all add: length_groups)
  ultimately have "set (groups ndim ! 0) \<inter> set (groups ndim ! 1) = {}"
    unfolding pairwise_disjoint_def by (metis zero_neq_one)
  with assms show False
    by (simp add: groups_first groups_second)
qed

text \<open>
  Claim C6, as stated: the groups handed to the sampler are a partition of the indices
  \<open>0..ndim-1\<close>. It fails for the 37 free parameters of the notebook's model (two per
  pulsar for 18 pulsars, and the common amplitude): the first group, all indices, and the
  second, the pair 0 and 1, share the index 0.
\<close>

theorem groups_partition_counterexample: "\<not> is_partition (groups 37) 37"
  using groups_overlap [of 37] by (simp add: is_partition_def)

text \<open>
  Claim C6, amended. The groups cover the indices \<open>0..ndim-1\<close>, the first group being
  all of them; the pair groups are pairwise disjoint among themselves; and from two
  parameters on the groups as a whole are not pairwise disjoint.
\<close>

theorem groups_cover_and_pairs_disjoint:
  "covers (groups ndim) ndim \<and> groups ndim ! 0 = [0..<ndim] \<and>
   pairwise_disjoint (pair_groups ndim) \<and>
   (2 \<le> ndim \<longrightarrow> \<not> pairwise_disjoint (groups ndim))"
  by (simp add: covers_groups groups_first pairwise_disjoint_pair_groups groups_overlap)

theorem groups_cover_and_pairs_disjoint_witness:
  "covers (groups 37) 37 \<and> groups 37 ! 0 = [0..<37] \<and>
   pairwise_disjoint (pair_groups 37) \<and>
   (2::nat) \<le> 37 \<and> \<not> pairwise_disjoint (groups 37)"
  using groups_cover_and_pairs_disjoint [of 37] by simp

text \<open>
  Claim C9. The pair groups hold exactly the indices below \<open>2 * (ndim div 2)\<close>, so for an
  odd \<open>ndim\<close> the last index is in none of them. The last group is the literal \<open>[36]\<close>:
  its index exists exactly when \<open>ndim\<close> is at least 37, and it is the last index exactly
  when \<open>ndim\<close> is 37; so for an odd \<open>ndim\<close> the last index is in a group other than the
  first exactly when \<open>ndim\<close> is 37.
\<close>

theorem pair_groups_miss_last_index:
  "(\<Union>g \<in> set (pair_groups ndim). set g) = {0..<2 * (ndim div 2)} \<and>
   (odd ndim \<longrightarrow> ndim - 1 \<notin> (\<Union>g \<in> set (pair_groups ndim). set g)) \<and>
   last (groups ndim) = [36] \<and>
   (valid_group ndim (last (groups ndim)) \<longleftrightarrow> 37 \<le> ndim) \<and>
   (ndim - 1 \<in> set (last (groups ndim)) \<longleftrightarrow> ndim = 37) \<and>
   (odd ndim \<longrightarrow> ((\<exists>g \<in> set (tl (groups ndim)). ndim - 1 \<in> set g) \<longleftrightarrow> ndim = 37))"
proof (intro conjI impI)
  show "(\<Union>g \<in> set (pair_groups ndim). set g) = {0..<2 * (ndim div 2)}"
    by (rule set_pair_groups)
  show "last (groups ndim) = [36]"
    by (rule last_groups)
  show "valid_group ndim (last (groups ndim)) \<longleftrightarrow> 37 \<le> ndim"
    by (auto simp: valid_group_def last_groups)
  show "ndim - 1 \<in> set (last (groups ndim)) \<longleftrightarrow> ndim = 37"
    by (auto simp: last_groups)
next
  assume odd: "odd ndim"
  then have "2 * (ndim div 2) = ndim - 1"
    by (auto elim: oddE)
  then show miss: "ndim - 1 \<notin> (\<Union>g \<in> set (pair_groups ndim). set g)"
    by (simp add: set_pair_groups)
  have "tl (groups ndim) = pair_groups ndim @ [[36]]"
    by (simp add: groups_def)
  with miss show "(\<exists>g \<in> set (tl (groups ndim)). ndim - 1 \<in> set g) \<longleftrightarrow> ndim = 37"
    by auto
qed

theorem pair_groups_miss_last_index_witness:
  "odd (37 :: nat) \<and> (37 :: nat) - 1 \<notin> (\<Union>g \<in> set (pair_groups 37). set g) \<and>
   valid_group 37 (last (groups 37)) \<and> (\<exists>g \<in> set (tl (groups 37)). (37 :: nat) - 1 \<in> set g) \<and>
   odd (5 :: nat) \<and> (5 :: nat) - 1 \<notin> (\<Union>g \<in> set (pair_groups 5). set g) \<and>
   \<not> valid_group 5 (last (groups 5)) \<and> \<not> (\<exists>g \<in> set (tl (groups 5)). (5 :: nat) - 1 \<in> set g)"
  using pair_groups_miss_last_index [of 37] pair_groups_miss_last_index [of 5]
  by (simp add: last_groups)

section \<open>Properties of the upper limit\<close>

lemma percentile_interp:
  assumes "percentile a q = Inr v"
  shows "0 \<le> q" "q \<le> 100" "a \<noteq> []" "v = interp (sort a) (q / 100 * real (length a - 1))"
  using assms by (auto simp: percentile_def interp_def Let_def split: if_splits)

lemma position_bounds:
  assumes "0 \<le> q" "q \<le> 100"
  shows "0 \<le> q / 100 * real n" "q / 100 * real n \<le> real n"
proof -
  from assms have q: "0 \<le> q / 100" "q / 100 \<le> 1" by simp_all
  from q(1) show "0 \<le> q / 100 * real n" by simp
  from q(2) have "q / 100 * real n \<le> 1 * real n"
    by (rule mult_right_mono) simp
  then show "q / 100 * real n \<le> real n" by simp
qed

lemma interp_between:
  assumes "sorted s" "s \<noteq> []" "0 \<le> pos" "pos \<le> real (length s - 1)"
  defines "lo \<equiv> nat \<lfloor>pos\<rfloor>"
  defines "hi \<equiv> min (lo + 1) (length s - 1)"
  shows "lo \<le> hi" "hi < length s" "s ! lo \<le> interp s pos" "interp s pos \<le> s ! hi"
proof -
  from assms(3) have lo_le: "real lo \<le> pos" and lt: "pos < real lo + 1"
    unfolding lo_def by linarith+
  from lo_le assms(4) have "lo \<le> length s - 1" by linarith
  then show lohi: "lo \<le> hi" unfolding hi_def by simp
  from assms(2) have "length s - 1 < length s" by (cases s) simp_all
  then show hi: "hi < length s" unfolding hi_def by (simp add: min_less_iff_disj)
  from assms(1) lohi hi have mono: "s ! lo \<le> s ! hi" by (simp add: sorted_nth_mono)
  have eq: "interp s pos = s ! lo + (pos - real lo) * (s ! hi - s ! lo)"
    by (simp add: interp_def lo_def hi_def Let_def)
  from lo_le mono show "s ! lo \<le> interp s pos" unfolding eq by simp
  from lt have "pos - real lo \<le> 1" by simp
  with mono have "(pos - real lo) * (s ! hi - s ! lo) \<le> 1 * (s ! hi - s ! lo)"
    by (intro mult_right_mono) simp_all
  then show "interp s pos \<le> s ! hi" unfolding eq by simp
qed

lemma interp_mono:
  assumes "sorted s" "s \<noteq> []" "0 \<le> pos" "pos \<le> pos'" "pos' \<le> real (length s - 1)"
  shows "interp s pos \<le> interp s pos'"
proof (cases "nat \<lfloor>pos\<rfloor> = nat \<lfloor>pos'\<rfloor>")
  case True
  define lo where "lo = nat \<lfloor>pos\<rfloor>"
  define hi where "hi = min (lo + 1) (length s - 1)"
  from assms have "lo \<le> hi" "hi < length s"
    using interp_between(1,2) [of s pos] by (simp_all add: lo_def hi_def)
  with assms(1) have "s ! lo \<le> s ! hi" by (simp add: sorted_nth_mono)
  with assms(4) have "(pos - real lo) * (s ! hi - s ! lo) \<le> (pos' - real lo) * (s ! hi - s ! lo)"
    by (intro mult_right_mono) simp_all
  with True show ?thesis
    by (simp add: interp_def Let_def lo_def hi_def)
next
  case False
  define lo where "lo = nat \<lfloor>pos\<rfloor>"
  define hi where "hi = min (lo + 1) (length s - 1)"
  define lo' where "lo' = nat \<lfloor>pos'\<rfloor>"
  from assms(4) have "\<lfloor>pos\<rfloor> \<le> \<lfloor>pos'\<rfloor>" by (rule floor_mono)
  with False have "lo < lo'" unfolding lo_def lo'_def by linarith
  then have "hi \<le> lo'" unfolding hi_def by simp
  from assms have pos': "0 \<le> pos'" and pos: "pos \<le> real (length s - 1)" by simp_all
  from pos' assms(5) have "lo' \<le> length s - 1" unfolding lo'_def by linarith
  with assms(2) have "lo' < length s" by (cases s) simp_all
  with assms(1) \<open>hi \<le> lo'\<close> have "s ! hi \<le> s ! lo'" by (simp add: sorted_nth_mono)
  moreover have "interp s pos \<le> s ! hi"
    using interp_between(4) [OF assms(1,2,3) pos] by (simp add: hi_def lo_def)
  moreover have "s ! lo' \<le> interp s pos'"
    using interp_between(3) [OF assms(1,2) pos' assms(5)] by (simp add: lo'_def)
  ultimately show ?thesis by linarith
qed

lemma percentile_mono:
  assumes "percentile a q = Inr v" "percentile a q' = Inr w" "q \<le> q'"
  shows "v \<le> w"
proof -
  note p = percentile_interp [OF assms(1)] and p' = percentile_interp [OF assms(2)]
  let ?n = "length a - 1"
  from p(1) assms(3) have "q / 100 * real ?n \<le> q' / 100 * real ?n"
    by (intro mult_right_mono) simp_all
  moreover have "length (sort a) = length a"
    by simp
  with p(3) have "sort a \<noteq> []"
    by (cases "sort a") simp_all
  moreover have "length (sort a) - 1 = ?n"
    by simp
  ultimately have "interp (sort a) (q / 100 * real ?n) \<le> interp (sort a) (q' / 100 * real ?n)"
    using position_bounds [of q ?n] position_bounds [of q' ?n] p p'
    by (intro interp_mono) simp_all
  with p(4) p'(4) show ?thesis by simp
qed


lemma count_below_sorted:
  assumes "sorted s" "hi < length s" "v \<le> s ! hi"
  shows "length (filter (\<lambda>x. x < v) s) \<le> hi"
proof -
  have "\<not> x < v" if "x \<in> set (drop hi s)" for x
  proof -
    from that obtain i where "i < length s - hi" "x = s ! (hi + i)"
      by (auto simp: in_set_conv_nth)
    with assms(1) have "s ! hi \<le> x" by (simp add: sorted_nth_mono)
    with assms(3) show ?thesis by simp
  qed
  then have "filter (\<lambda>x. x < v) (drop hi s) = []" by (simp add: filter_empty_conv)
  moreover have "filter (\<lambda>x. x < v) s =
      filter (\<lambda>x. x < v) (take hi s) @ filter (\<lambda>x. x < v) (drop hi s)"
    by (simp flip: filter_append)
  ultimately have "length (filter (\<lambda>x. x < v) s) = length (filter (\<lambda>x. x < v) (take hi s))"
    by simp
  also have "\<dots> \<le> length (take hi s)" by (rule length_filter_le)
  also have "\<dots> \<le> hi" by simp
  finally show ?thesis .
qed

lemma count_upto_sorted:
  assumes "sorted s" "lo < length s" "s ! lo \<le> v"
  shows "lo + 1 \<le> length (filter (\<lambda>x. x \<le> v) s)"
proof -
  have "x \<le> v" if "x \<in> set (take (lo + 1) s)" for x
  proof -
    from that obtain i where "i < lo + 1" "i < length s" "x = s ! i"
      by (auto simp: in_set_conv_nth)
    with assms(1,2) have "x \<le> s ! lo" by (simp add: sorted_nth_mono)
    with assms(3) show ?thesis by simp
  qed
  then have "filter (\<lambda>x. x \<le> v) (take (lo + 1) s) = take (lo + 1) s"
    by (simp add: filter_id_conv)
  moreover have "filter (\<lambda>x. x \<le> v) s =
      filter (\<lambda>x. x \<le> v) (take (lo + 1) s) @ filter (\<lambda>x. x \<le> v) (drop (lo + 1) s)"
    by (simp flip: filter_append)
  ultimately have "length (take (lo + 1) s) \<le> length (filter (\<lambda>x. x \<le> v) s)"
    by simp
  with assms(2) show ?thesis by simp
qed

lemma length_filter_sort: "length (filter P (sort a)) = length (filter P a)"
  by (simp add: filter_sort)

lemma percentile_counts:
  assumes "percentile a q = Inr v"
  shows "real (length (filter (\<lambda>x. x < v) a)) < q / 100 * real (length a - 1) + 1"
    and "q / 100 * real (length a - 1) < real (length (filter (\<lambda>x. x \<le> v) a))"
proof -
  note p = percentile_interp [OF assms]
  define s where "s = sort a"
  define pos where "pos = q / 100 * real (length a - 1)"
  define lo where "lo = nat \<lfloor>pos\<rfloor>"
  define hi where "hi = min (lo + 1) (length s - 1)"
  have len: "length s = length a" by (simp add: s_def)
  with p(3) have "s \<noteq> []" by (cases s) simp_all
  with len have s: "sorted s" "s \<noteq> []" "length s - 1 = length a - 1"
    by (simp_all add: s_def)
  from p(1,2) have pos: "0 \<le> pos" "pos \<le> real (length s - 1)"
    unfolding pos_def s(3) by (rule position_bounds)+
  note b = interp_between [OF s(1,2) pos, folded lo_def, folded hi_def]
  from p(4) have v: "v = interp s pos" by (simp add: s_def pos_def)
  from pos(1) have lo: "real lo \<le> pos" "pos < real lo + 1"
    unfolding lo_def by linarith+
  have "real (length (filter (\<lambda>x. x < v) s)) < pos + 1"
  proof (cases "v \<le> s ! lo")
    case True
    from b(1,2) have "lo < length s" by simp
    from count_below_sorted [OF s(1) this True] lo show ?thesis by simp
  next
    case False
    then have "s ! lo < s ! lo + (pos - real lo) * (s ! hi - s ! lo)"
      by (simp add: v interp_def Let_def lo_def hi_def)
    then have "pos \<noteq> real lo" by auto
    with lo(1) have "real lo < pos" by simp
    moreover from b(4) have "v \<le> s ! hi" by (simp add: v)
    from count_below_sorted [OF s(1) b(2) this] have "length (filter (\<lambda>x. x < v) s) \<le> lo + 1"
      unfolding hi_def by simp
    ultimately show ?thesis by simp
  qed
  then show "real (length (filter (\<lambda>x. x < v) a)) < q / 100 * real (length a - 1) + 1"
    by (simp add: s_def length_filter_sort pos_def)
  from b(1,2) have "lo < length s" by simp
  moreover from b(3) have "s ! lo \<le> v" by (simp add: v)
  ultimately have "lo + 1 \<le> length (filter (\<lambda>x. x \<le> v) s)"
    by (rule count_upto_sorted [OF s(1)])
  with lo(2) have "pos < real (length (filter (\<lambda>x. x \<le> v) s))" by simp
  then show "q / 100 * real (length a - 1) < real (length (filter (\<lambda>x. x \<le> v) a))"
    by (simp add: s_def length_filter_sort pos_def)
qed

lemma demo_column:
  "column (drop (length demo_chain div 4) demo_chain) (- 5) =
     Inr [- 15, - 14, - 16, - 13, - 17, - 12]"
  by (simp add: demo_chain_def item_def)

lemma demo_percentile:
  "percentile [- 15, - 14, - 16, - 13, - 17, - 12] (95 / 100) = Inr (- 17 + 19 / 400)"
  "percentile [- 15, - 14, - 16, - 13, - 17, - 12] 95 = Inr (- 13 + 3 / 4)"
  by (simp_all add: percentile_def)

lemma demo_upper: "upper demo_chain = Inr (10 powr (- 17 + 19 / 400))"
  by (simp only: upper_def burn_def demo_column demo_percentile sum.case)

text \<open>For this chain the 95th percentile is another, larger number.\<close>

lemma demo_upper_below_95th:
  "percentile [- 15, - 14, - 16, - 13, - 17, - 12] 95 = Inr (- 13 + 3 / 4) \<and>
   upper demo_chain \<noteq> Inr (10 powr (- 13 + 3 / 4))"
proof -
  have "(10::real) powr (- 17 + 19 / 400) < 10 powr (- 13 + 3 / 4)"
    by (rule powr_less_mono) simp_all
  then have "(10::real) powr (- 17 + 19 / 400) \<noteq> 10 powr (- 13 + 3 / 4)"
    by (rule less_imp_neq)
  then have "upper demo_chain \<noteq> Inr (10 powr (- 13 + 3 / 4))"
    by (simp only: demo_upper sum.inject not_False_eq_True)
  with demo_percentile(2) show ?thesis
    by (rule conjI)
qed

text \<open>
  Claim C10. Whenever the cell yields a number, it is 10 to the power of numpy's percentile
  at \<open>q = 0.95\<close> of the fifth column from the end over the rows after the first quarter.
  On numpy's 0 to 100 scale that is the 0.95th percentile: counting the \<open>n\<close> samples of the
  column, fewer than \<open>0.0095 * (n - 1) + 1\<close> lie below the logarithm of the reported value
  and more than \<open>0.0095 * (n - 1)\<close> lie at or below it. The 95th percentile is never
  smaller, and for the chain above it is larger.
\<close>

theorem upper_is_0_95th_percentile:
  assumes "upper chain = Inr u"
  shows "\<exists>col v. column (drop (length chain div 4) chain) (- 5) = Inr col \<and>
           percentile col (95 / 100) = Inr v \<and> u = 10 powr v \<and>
           real (length (filter (\<lambda>x. x < v) col)) < 95 / 10000 * real (length col - 1) + 1 \<and>
           95 / 10000 * real (length col - 1) < real (length (filter (\<lambda>x. x \<le> v) col)) \<and>
           (\<forall>w. percentile col 95 = Inr w \<longrightarrow> u \<le> 10 powr w)"
proof -
  from assms obtain col v where
    col: "column (drop (length chain div 4) chain) (- 5) = Inr col" and
    v: "percentile col (95 / 100) = Inr v" and u: "u = 10 powr v"
    by (auto simp: upper_def burn_def split: sum.splits)
  from percentile_counts [OF v] have
    "real (length (filter (\<lambda>x. x < v) col)) < 95 / 10000 * real (length col - 1) + 1"
    "95 / 10000 * real (length col - 1) < real (length (filter (\<lambda>x. x \<le> v) col))"
    by simp_all
  moreover have "u \<le> 10 powr w" if "percentile col 95 = Inr w" for w
  proof -
    from percentile_mono [OF v that] have "v \<le> w" by simp
    then show ?thesis by (simp add: u)
  qed
  ultimately show ?thesis using col v u by blast
qed

theorem upper_is_0_95th_percentile_witness:
  "upper demo_chain = Inr (10 powr (- 17 + 19 / 400)) \<and>
   (\<exists>col v. column (drop (length demo_chain div 4) demo_chain) (- 5) = Inr col \<and>
      percentile col (95 / 100) = Inr v \<and> 10 powr (- 17 + 19 / 400) = 10 powr v \<and>
      real (length (filter (\<lambda>x. x < v) col)) < 95 / 10000 * real (length col - 1) + 1 \<and>
      95 / 10000 * real (length col - 1) < real (length (filter (\<lambda>x. x \<le> v) col)) \<and>
      (\<forall>w. percentile col 95 = Inr w \<longrightarrow> 10 powr (- 17 + 19 / 400) \<le> 10 powr w))"
  by (rule conjI [OF demo_upper upper_is_0_95th_percentile [OF demo_upper]])

section \<open>Properties of the priors and the likelihood engine\<close>

lemma ln_add_NegInf_iff: "ln_add a b = NegInf \<longleftrightarrow> a = NegInf \<or> b = NegInf"
  by (cases a; cases b) simp_all

lemma log_density_NegInf_iff: "log_density d v = NegInf \<longleftrightarrow> \<not> in_support d v"
  by (simp add: log_density_def)

lemma log_density_Fin: "in_support d v \<Longrightarrow> log_density d v = Fin (ln (pdf d v))"
  by (simp add: log_density_def)

text \<open>The sum of the log-densities of the entries of a registry, in \<open>lnval\<close> arithmetic.\<close>

lemma lnprior_sum_covered:
  assumes "\<forall>q \<in> set ps. fst q \<in> dom x"
  shows "lnprior_sum ps x =
           Inr (foldr (\<lambda>q l. ln_add (log_density (snd q) (the (x (fst q)))) l) ps (Fin 0))"
  using assms by (induction ps) (auto split: option.splits)

lemma foldr_ln_add_NegInf_iff:
  "foldr (\<lambda>q l. ln_add (log_density (snd q) (f q)) l) ps (Fin 0) = NegInf \<longleftrightarrow>
     (\<exists>q \<in> set ps. \<not> in_support (snd q) (f q))"
  by (induction ps) (simp_all add: ln_add_NegInf_iff log_density_NegInf_iff)

lemma foldr_ln_add_Fin:
  assumes "\<forall>q \<in> set ps. in_support (snd q) (f q)"
  shows "foldr (\<lambda>q l. ln_add (log_density (snd q) (f q)) l) ps (Fin 0) =
           Fin (\<Sum>q \<leftarrow> ps. ln (pdf (snd q) (f q)))"
  using assms by (induction ps) (simp_all add: log_density_Fin)

lemma integrates_to_unique:
  assumes "integrates_to f a b v" "integrates_to f a b w" "a \<le> b"
  shows "v = w"
proof (cases "a = b")
  case True
  with assms(1,2) show ?thesis by (auto simp: integrates_to_def)
next
  case False
  with assms(3) have ab: "a < b" by simp
  from assms(1) obtain G where
    G: "\<And>x. a \<le> x \<Longrightarrow> x \<le> b \<Longrightarrow> (G has_real_derivative f x) (at x)"
    and v: "G b - G a = v" by (auto simp: integrates_to_def)
  from assms(2) obtain H where
    H: "\<And>x. a \<le> x \<Longrightarrow> x \<le> b \<Longrightarrow> (H has_real_derivative f x) (at x)"
    and w: "H b - H a = w" by (auto simp: integrates_to_def)
  define D where "D = (\<lambda>x. G x - H x)"
  have deriv: "(D has_real_derivative 0) (at x)" if "a \<le> x" "x \<le> b" for x
    unfolding D_def using DERIV_diff [OF G [OF that] H [OF that]] by simp
  have "continuous_on {a..b} D"
    by (rule continuous_at_imp_continuous_on) (auto intro!: DERIV_isCont deriv)
  with ab have "D b = D a"
    by (rule DERIV_isconst_end) (simp add: deriv)
  with v w show ?thesis by (simp add: D_def)
qed

lemma LinearExp_cdf_deriv:
  "((\<lambda>x. (10 powr x - 10 powr low) / (10 powr high - 10 powr low)) has_real_derivative
      ln 10 * 10 powr x / (10 powr high - 10 powr low)) (at x)"
proof -
  have "((\<lambda>x. 10 powr x - 10 powr low) has_real_derivative 10 powr x * ln 10) (at x)"
    by (auto intro!: derivative_eq_intros)
  then have "((\<lambda>x. (10 powr x - 10 powr low) / (10 powr high - 10 powr low))
      has_real_derivative 10 powr x * ln 10 / (10 powr high - 10 powr low)) (at x)"
    by (rule DERIV_cdivide)
  then show ?thesis by (simp add: mult.commute)
qed

lemma powr_10_strict: "low < high \<Longrightarrow> (10::real) powr low < 10 powr high"
  by (rule powr_less_mono) simp_all

lemma LinearExp_integrates_to_1:
  assumes "low < high"
  shows "integrates_to (pdf (LinearExp low high)) low high 1"
  unfolding integrates_to_def
proof (intro exI conjI allI impI)
  let ?G = "\<lambda>x. (10 powr x - 10 powr low) / (10 powr high - 10 powr low)"
  fix x assume "low \<le> x \<and> x \<le> high"
  then show "(?G has_real_derivative pdf (LinearExp low high) x) (at x)"
    using LinearExp_cdf_deriv [of low high x] by simp
next
  from powr_10_strict [OF assms] have "(10::real) powr high - 10 powr low \<noteq> 0"
    by linarith
  then show "(10 powr high - 10 powr low) / (10 powr high - 10 powr low) -
      (10 powr low - 10 powr low) / (10 powr high - 10 powr low) = (1::real)"
    by simp
qed

lemma resolve_None_iff:
  "resolve dflt x q = None \<longleftrightarrow>
     (\<exists>d. snd q = Free d \<and> fst q \<notin> dom x) \<or> (snd q = Constant None \<and> fst q \<notin> dom dflt)"
  by (cases "(dflt, x, q)" rule: resolve.cases) auto

lemma resolve_all_None_iff:
  "resolve_all dflt x ps = None \<longleftrightarrow> (\<exists>q \<in> set ps. resolve dflt x q = None)"
  by (induction ps) (auto split: option.splits)

lemma resolve_all_cong:
  assumes "\<forall>q \<in> set ps. resolve dflt x' q = resolve dflt x q"
  shows "resolve_all dflt x' ps = resolve_all dflt x ps"
  using assms by (induction ps) (simp_all split: option.splits)

lemma series_lnlikelihood_not_missing:
  "series_lnlikelihood s vs \<noteq> Inl MissingParameterError"
  by (simp add: series_lnlikelihood_def split: option.splits)

lemma sum_series_Inl:
  assumes "sum_series cs = Inl e"
  shows "Inl e \<in> set cs"
  using assms by (induction cs) (auto split: sum.splits)

lemma contribution_missing_iff:
  "contribution dflt x s = Inl MissingParameterError \<longleftrightarrow> resolve_all dflt x (slots s) = None"
  by (simp add: contribution_def series_lnlikelihood_not_missing split: option.splits)

lemma resolve_collections_None_iff:
  "resolve_collections dflt x ss = None \<longleftrightarrow>
     (\<exists>s \<in> set ss. resolve_all dflt x (slots s) = None)"
  by (induction ss) (auto split: option.splits)

lemma resolve_collections_Some:
  assumes "resolve_collections dflt x ss = Some vss"
  shows "map (\<lambda>(s, vs). series_lnlikelihood s vs) (zip ss vss) = map (contribution dflt x) ss"
  using assms
  by (induction ss arbitrary: vss) (auto simp: contribution_def split: option.splits)

lemma get_lnlikelihood_resolved:
  assumes "resolve_collections (defaults p) x (collections p) \<noteq> None"
  shows "get_lnlikelihood p x = sum_series (map (contribution (defaults p) x) (collections p))"
  using assms by (auto simp: get_lnlikelihood_def resolve_collections_Some)

lemma get_lnlikelihood_missing:
  "get_lnlikelihood p x = Inl MissingParameterError \<longleftrightarrow>
     (\<exists>s \<in> set (collections p). resolve_all (defaults p) x (slots s) = None)"
proof (cases "resolve_collections (defaults p) x (collections p)")
  case None
  then show ?thesis
    by (simp add: get_lnlikelihood_def flip: resolve_collections_None_iff)
next
  case (Some vss)
  then have all: "\<not> (\<exists>s \<in> set (collections p). resolve_all (defaults p) x (slots s) = None)"
    by (simp flip: resolve_collections_None_iff)
  have "get_lnlikelihood p x \<noteq> Inl MissingParameterError"
  proof
    assume "get_lnlikelihood p x = Inl MissingParameterError"
    with Some have
      "sum_series (map (contribution (defaults p) x) (collections p)) = Inl MissingParameterError"
      by (simp add: get_lnlikelihood_resolved)
    then have "Inl MissingParameterError \<in> set (map (contribution (defaults p) x) (collections p))"
      by (rule sum_series_Inl)
    then obtain s where "s \<in> set (collections p)"
      "contribution (defaults p) x s = Inl MissingParameterError"
      by auto
    then have "s \<in> set (collections p)" "resolve_all (defaults p) x (slots s) = None"
      by (simp_all only: contribution_missing_iff)
    with all show False by blast
  qed
  with all show ?thesis by simp
qed

lemma resolve_update:
  "resolve dflt (x(n \<mapsto> v)) q =
     (if fst q = n \<and> (\<exists>d. snd q = Free d) then Some v else resolve dflt x q)"
  by (cases "(dflt, x, q)" rule: resolve.cases) auto

lemma demo_params:
  "pta_params demo_pta =
     [(''A_log10_A'', LinearExp (- 20) (- 12)), (''log10_A_gw'', LinearExp (- 18) (- 12)),
      (''B_log10_A'', LinearExp (- 20) (- 12))]"
  by (simp add: pta_params_def demo_pta_def demo_series_def)

lemma demo_covered: "\<forall>q \<in> set (pta_params demo_pta). fst q \<in> dom demo_x"
  by (simp add: demo_params demo_x_def)

lemma demo_lnprior: "get_lnprior demo_pta demo_x = Inr NegInf"
  by (simp add: get_lnprior_def demo_params demo_x_def log_density_def)

lemma demo_lnprior_inside:
  "get_lnprior demo_pta (demo_x(''log10_A_gw'' \<mapsto> - 14)) =
     Inr (Fin (ln (ln 10 * 10 powr (- 15) / (10 powr (- 12) - 10 powr (- 20))) +
               (ln (ln 10 * 10 powr (- 14) / (10 powr (- 12) - 10 powr (- 18))) +
                (ln (ln 10 * 10 powr (- 13) / (10 powr (- 12) - 10 powr (- 20))) + 0))))"
  by (simp add: get_lnprior_def demo_params demo_x_def log_density_def)

lemma demo_missing:
  "get_lnlikelihood (set_default_params demo_pta [''A_efac'' \<mapsto> 105 / 100]) demo_x =
     Inl MissingParameterError"
  by (simp add: get_lnlikelihood_def set_default_params_def demo_pta_def demo_series_def
        demo_x_def)

lemma demo_lnlikelihood:
  "get_lnlikelihood
     (set_default_params demo_pta [''A_efac'' \<mapsto> 105 / 100, ''B_efac'' \<mapsto> 1]) demo_x =
   Inr (5529 / 100)"
  by (simp add: get_lnlikelihood_def set_default_params_def demo_pta_def demo_series_def
        demo_x_def series_lnlikelihood_def)

lemma demo_unresolved:
  "\<exists>s \<in> set (collections demo_pta). \<exists>q \<in> set (slots s).
     (\<exists>d. snd q = Free d \<and> fst q \<notin> dom demo_x) \<or>
     (snd q = Constant None \<and> fst q \<notin> dom [''A_efac'' \<mapsto> 105 / 100 :: real])"
  by (simp add: demo_pta_def demo_series_def)

lemma resolve_all_map:
  assumes "map (resolve dflt x) ps = map (resolve dflt y) qs"
  shows "resolve_all dflt x ps = resolve_all dflt y qs"
  using assms
proof (induction ps arbitrary: qs)
  case Nil
  then show ?case by simp
next
  case (Cons p ps)
  then obtain q qs' where qs: "qs = q # qs'" by (cases qs) auto
  with Cons.prems have "resolve dflt x p = resolve dflt y q"
    "map (resolve dflt x) ps = map (resolve dflt y) qs'"
    by simp_all
  with Cons.IH [of qs'] qs show ?case by (simp split: option.splits)
qed

lemma series_lnlikelihood_kernel:
  "kernel s = kernel t \<Longrightarrow> series_lnlikelihood s = series_lnlikelihood t"
  by (rule ext) (simp add: series_lnlikelihood_def split: option.splits)

lemma contribution_identical:
  assumes "kernel s = kernel t"
    and vals: "map (resolve dflt x) (slots s) = map (resolve dflt x) (slots t)"
    and refs: "map (\<lambda>q. fst q = n \<and> (\<exists>d. snd q = Free d)) (slots s) =
         map (\<lambda>q. fst q = n \<and> (\<exists>d. snd q = Free d)) (slots t)"
  shows "contribution dflt (x(n \<mapsto> v)) s = contribution dflt (x(n \<mapsto> v)) t"
proof -
  from vals have len: "length (slots s) = length (slots t)"
    by (rule map_eq_imp_length_eq)
  have "map (resolve dflt (x(n \<mapsto> v))) (slots s) = map (resolve dflt (x(n \<mapsto> v))) (slots t)"
  proof (rule nth_equalityI)
    show "length (map (resolve dflt (x(n \<mapsto> v))) (slots s)) =
        length (map (resolve dflt (x(n \<mapsto> v))) (slots t))"
      using len by simp
    fix i
    assume "i < length (map (resolve dflt (x(n \<mapsto> v))) (slots s))"
    then have i: "i < length (slots s)" "i < length (slots t)" using len by simp_all
    have "map (resolve dflt x) (slots s) ! i = map (resolve dflt x) (slots t) ! i"
      by (simp only: vals)
    with i have a: "resolve dflt x (slots s ! i) = resolve dflt x (slots t ! i)"
      by simp
    have "map (\<lambda>q. fst q = n \<and> (\<exists>d. snd q = Free d)) (slots s) ! i =
        map (\<lambda>q. fst q = n \<and> (\<exists>d. snd q = Free d)) (slots t) ! i"
      by (simp only: refs)
    with i have b: "(fst (slots s ! i) = n \<and> (\<exists>d. snd (slots s ! i) = Free d)) =
        (fst (slots t ! i) = n \<and> (\<exists>d. snd (slots t ! i) = Free d))"
      by simp
    have "resolve dflt (x(n \<mapsto> v)) (slots s ! i) = resolve dflt (x(n \<mapsto> v)) (slots t ! i)"
      by (simp only: resolve_update a b)
    with i show "map (resolve dflt (x(n \<mapsto> v))) (slots s) ! i =
        map (resolve dflt (x(n \<mapsto> v))) (slots t) ! i"
      by simp
  qed
  then have "resolve_all dflt (x(n \<mapsto> v)) (slots s) = resolve_all dflt (x(n \<mapsto> v)) (slots t)"
    by (rule resolve_all_map)
  with series_lnlikelihood_kernel [OF assms(1)] show ?thesis
    by (simp add: contribution_def split: option.splits)
qed

lemma demo_twins_collections:
  "demo_series ''A'' \<in> set (collections demo_twins)"
  "demo_series ''B'' \<in> set (collections demo_twins)"
  by (simp_all add: demo_twins_def set_default_params_def demo_pta_def)

lemma demo_twins_alike:
  "kernel (demo_series ''A'') = kernel (demo_series ''B'') \<and>
   map (resolve (defaults demo_twins) demo_y) (slots (demo_series ''A'')) =
     map (resolve (defaults demo_twins) demo_y) (slots (demo_series ''B'')) \<and>
   map (\<lambda>q. fst q = ''log10_A_gw'' \<and> (\<exists>d. snd q = Free d)) (slots (demo_series ''A'')) =
     map (\<lambda>q. fst q = ''log10_A_gw'' \<and> (\<exists>d. snd q = Free d)) (slots (demo_series ''B''))"
  by (simp add: demo_series_def demo_twins_def set_default_params_def demo_pta_def demo_y_def)

lemma demo_twins_private:
  "''A_log10_A'' \<notin> fst ` set (slots (demo_series ''B''))"
  by (simp add: demo_series_def)

text \<open>
  Claim C2. For a mapping \<open>x\<close> that has a value for every parameter of the registry,
  \<^verbatim>\<open>get_lnprior\<close> returns a value, never an error: the sum of the parameters'
  log-densities. It is minus infinity exactly when some parameter's value lies outside its
  support, and otherwise the finite sum of the logs of the densities.
\<close>

theorem get_lnprior_minus_infinity_iff:
  assumes "\<forall>q \<in> set (pta_params p). fst q \<in> dom x"
  shows "\<exists>l. get_lnprior p x = Inr l \<and>
           l = foldr (\<lambda>q l. ln_add (log_density (snd q) (the (x (fst q)))) l) (pta_params p) (Fin 0) \<and>
           (l = NegInf \<longleftrightarrow>
              (\<exists>q \<in> set (pta_params p). \<not> in_support (snd q) (the (x (fst q))))) \<and>
           (l \<noteq> NegInf \<longrightarrow>
              l = Fin (\<Sum>q \<leftarrow> pta_params p. ln (pdf (snd q) (the (x (fst q))))))"
proof -
  let ?l = "foldr (\<lambda>q l. ln_add (log_density (snd q) (the (x (fst q)))) l) (pta_params p) (Fin 0)"
  have "get_lnprior p x = Inr ?l"
    unfolding get_lnprior_def using assms by (rule lnprior_sum_covered)
  moreover have iff: "?l = NegInf \<longleftrightarrow>
      (\<exists>q \<in> set (pta_params p). \<not> in_support (snd q) (the (x (fst q))))"
    by (rule foldr_ln_add_NegInf_iff)
  moreover have "?l = Fin (\<Sum>q \<leftarrow> pta_params p. ln (pdf (snd q) (the (x (fst q)))))"
    if "?l \<noteq> NegInf"
  proof -
    from that iff have "\<forall>q \<in> set (pta_params p). in_support (snd q) (the (x (fst q)))"
      by blast
    then show ?thesis by (rule foldr_ln_add_Fin)
  qed
  ultimately show ?thesis by blast
qed

theorem get_lnprior_minus_infinity_iff_witness:
  "fst ` set (pta_params demo_pta) \<subseteq> dom demo_x \<and>
   (\<exists>l. get_lnprior demo_pta demo_x = Inr l \<and>
      l = foldr (\<lambda>q l. ln_add (log_density (snd q) (the (demo_x (fst q)))) l)
            (pta_params demo_pta) (Fin 0) \<and>
      (l = NegInf \<longleftrightarrow>
         (\<exists>q \<in> set (pta_params demo_pta). \<not> in_support (snd q) (the (demo_x (fst q))))) \<and>
      (l \<noteq> NegInf \<longrightarrow>
         l = Fin (\<Sum>q \<leftarrow> pta_params demo_pta. ln (pdf (snd q) (the (demo_x (fst q)))))))"
proof -
  from demo_covered have "fst ` set (pta_params demo_pta) \<subseteq> dom demo_x"
    by blast
  then show ?thesis
    by (rule conjI [OF _ get_lnprior_minus_infinity_iff [OF demo_covered]])
qed

text \<open>
  Claim C3. For bounds \<open>low < high\<close> the LinearExp density is
  \<open>ln 10 * 10^x / (10^high - 10^low)\<close> on the closed range, positive there, with the log
  of that as log-density; outside the range the density is 0 and the log-density minus
  infinity; and the density integrates to 1 over the range.
\<close>

theorem LinearExp_density:
  assumes "low < high"
  shows "(\<forall>x. low \<le> x \<and> x \<le> high \<longrightarrow>
            pdf (LinearExp low high) x = ln 10 * 10 powr x / (10 powr high - 10 powr low) \<and>
            0 < pdf (LinearExp low high) x \<and>
            log_density (LinearExp low high) x =
              Fin (ln (ln 10 * 10 powr x / (10 powr high - 10 powr low)))) \<and>
         (\<forall>x. x < low \<or> high < x \<longrightarrow>
            pdf (LinearExp low high) x = 0 \<and> log_density (LinearExp low high) x = NegInf) \<and>
         integrates_to (pdf (LinearExp low high)) low high 1"
proof (intro conjI allI impI)
  fix x assume x: "low \<le> x \<and> x \<le> high"
  then show "pdf (LinearExp low high) x = ln 10 * 10 powr x / (10 powr high - 10 powr low)"
    by simp
  from powr_10_strict [OF assms] have "0 < ln 10 * 10 powr x / (10 powr high - 10 powr low)"
    by simp
  with x show "0 < pdf (LinearExp low high) x" by simp
  from x show "log_density (LinearExp low high) x =
      Fin (ln (ln 10 * 10 powr x / (10 powr high - 10 powr low)))"
    by (simp add: log_density_def)
next
  fix x assume x: "x < low \<or> high < x"
  then show "pdf (LinearExp low high) x = 0" by auto
  from x show "log_density (LinearExp low high) x = NegInf"
    by (auto simp: log_density_def)
next
  from assms show "integrates_to (pdf (LinearExp low high)) low high 1"
    by (rule LinearExp_integrates_to_1)
qed

theorem LinearExp_density_witness:
  "(- 18 :: real) < - 12 \<and>
   pdf (LinearExp (- 18) (- 12)) (- 15) =
     ln 10 * 10 powr (- 15) / (10 powr (- 12) - 10 powr (- 18)) \<and>
   0 < pdf (LinearExp (- 18) (- 12)) (- 15) \<and>
   log_density (LinearExp (- 18) (- 12)) (- 15) =
     Fin (ln (ln 10 * 10 powr (- 15) / (10 powr (- 12) - 10 powr (- 18)))) \<and>
   pdf (LinearExp (- 18) (- 12)) (- 11) = 0 \<and>
   log_density (LinearExp (- 18) (- 12)) (- 11) = NegInf \<and>
   integrates_to (pdf (LinearExp (- 18) (- 12))) (- 18) (- 12) 1"
proof -
  have lt: "(- 18 :: real) < - 12" by simp
  note d = LinearExp_density [OF lt]
  from d have inside: "- 18 \<le> x \<and> x \<le> - 12 \<longrightarrow>
       pdf (LinearExp (- 18) (- 12)) x = ln 10 * 10 powr x / (10 powr (- 12) - 10 powr (- 18)) \<and>
       0 < pdf (LinearExp (- 18) (- 12)) x \<and>
       log_density (LinearExp (- 18) (- 12)) x =
         Fin (ln (ln 10 * 10 powr x / (10 powr (- 12) - 10 powr (- 18))))" for x :: real
    by blast
  from d have outside: "x < - 18 \<or> - 12 < x \<longrightarrow>
       pdf (LinearExp (- 18) (- 12)) x = 0 \<and> log_density (LinearExp (- 18) (- 12)) x = NegInf"
    for x :: real
    by blast
  from d have total: "integrates_to (pdf (LinearExp (- 18) (- 12))) (- 18) (- 12) 1"
    by blast
  have "(- 18 :: real) \<le> - 15 \<and> (- 15 :: real) \<le> - 12" "(- 11 :: real) < - 18 \<or> (- 12 :: real) < - 11"
    by simp_all
  with inside [of "- 15"] outside [of "- 11"] lt total show ?thesis
    by blast
qed

text \<open>
  Claim C4. After \<^verbatim>\<open>set_default_params\<close> has registered the defaults \<open>m\<close>,
  \<^verbatim>\<open>get_lnlikelihood\<close> fails with MissingParameterError exactly when a slot of some series
  is a free parameter whose name has no value in \<open>x\<close>, or a Constant without a fixed value
  whose name has no value in \<open>m\<close>. The error is the result of the call, and it
  is the same whatever the series' kernels are: the only retry of the engine, the
  regularized factorization inside a kernel's evaluation, plays no part in it.
\<close>

theorem get_lnlikelihood_missing_parameter_iff:
  "(get_lnlikelihood (set_default_params p m) x = Inl MissingParameterError \<longleftrightarrow>
     (\<exists>s \<in> set (collections p). \<exists>q \<in> set (slots s).
        (\<exists>d. snd q = Free d \<and> fst q \<notin> dom x) \<or> (snd q = Constant None \<and> fst q \<notin> dom m))) \<and>
   (get_lnlikelihood (set_default_params p m) x = Inl MissingParameterError \<longrightarrow>
     (\<forall>f. get_lnlikelihood
        (set_default_params (p\<lparr>collections := map (\<lambda>s. s\<lparr>kernel := f s\<rparr>) (collections p)\<rparr>) m) x =
        Inl MissingParameterError))"
proof (intro conjI impI allI)
  show iff: "get_lnlikelihood (set_default_params p m) x = Inl MissingParameterError \<longleftrightarrow>
     (\<exists>s \<in> set (collections p). \<exists>q \<in> set (slots s).
        (\<exists>d. snd q = Free d \<and> fst q \<notin> dom x) \<or> (snd q = Constant None \<and> fst q \<notin> dom m))"
    by (simp add: get_lnlikelihood_missing set_default_params_def resolve_all_None_iff
        resolve_None_iff)
  fix f
  assume "get_lnlikelihood (set_default_params p m) x = Inl MissingParameterError"
  then obtain s where "s \<in> set (collections p)" "resolve_all m x (slots s) = None"
    by (auto simp: get_lnlikelihood_missing set_default_params_def)
  then have "\<exists>t \<in> set (map (\<lambda>s. s\<lparr>kernel := f s\<rparr>) (collections p)).
      resolve_all m x (slots t) = None"
    by (auto intro!: bexI [of _ s])
  then show "get_lnlikelihood
      (set_default_params (p\<lparr>collections := map (\<lambda>s. s\<lparr>kernel := f s\<rparr>) (collections p)\<rparr>) m) x =
      Inl MissingParameterError"
    by (simp add: get_lnlikelihood_missing set_default_params_def)
qed

theorem get_lnlikelihood_missing_parameter_iff_witness:
  "get_lnlikelihood (set_default_params demo_pta [''A_efac'' \<mapsto> 105 / 100]) demo_x =
     Inl MissingParameterError \<and>
   (\<exists>s \<in> set (collections demo_pta). \<exists>q \<in> set (slots s).
      (\<exists>d. snd q = Free d \<and> fst q \<notin> dom demo_x) \<or>
      (snd q = Constant None \<and> fst q \<notin> dom [''A_efac'' \<mapsto> 105 / 100 :: real])) \<and>
   get_lnlikelihood
     (set_default_params
        (demo_pta\<lparr>collections := map (\<lambda>s. s\<lparr>kernel := (\<lambda>reg vs. None)\<rparr>) (collections demo_pta)\<rparr>)
        [''A_efac'' \<mapsto> 105 / 100]) demo_x =
     Inl MissingParameterError"
proof -
  note t = get_lnlikelihood_missing_parameter_iff
    [of demo_pta "[''A_efac'' \<mapsto> 105 / 100]" demo_x]
  from t demo_unresolved have
    e: "get_lnlikelihood (set_default_params demo_pta [''A_efac'' \<mapsto> 105 / 100]) demo_x =
      Inl MissingParameterError"
    by blast
  with t have "\<forall>f. get_lnlikelihood
     (set_default_params
        (demo_pta\<lparr>collections := map (\<lambda>s. s\<lparr>kernel := f s\<rparr>) (collections demo_pta)\<rparr>)
        [''A_efac'' \<mapsto> 105 / 100]) demo_x =
     Inl MissingParameterError"
    by blast
  from this [THEN spec, of "\<lambda>s reg vs. None"] e demo_unresolved show ?thesis
    by (intro conjI)
qed

text \<open>
  Claim C5. The log-likelihood is the sum of the contributions of the series. Giving the
  one value \<open>v\<close> to the name \<open>n\<close> makes every slot of every series that is the free
  parameter \<open>n\<close> resolve to \<open>v\<close> and leaves every other slot as it was. Two series with
  the same kernel that resolved to the same values and have the free parameter \<open>n\<close> in the
  same slots get the same contribution after the change; and the contribution of a series
  that has no free parameter named \<open>n\<close> is unchanged.
\<close>

theorem shared_parameter_propagates:
  "(get_lnlikelihood p x \<noteq> Inl MissingParameterError \<longrightarrow>
      get_lnlikelihood p x = sum_series (map (contribution (defaults p) x) (collections p))) \<and>
   (\<forall>s \<in> set (collections p). \<forall>q \<in> set (slots s).
      resolve (defaults p) (x(n \<mapsto> v)) q =
        (if fst q = n \<and> (\<exists>d. snd q = Free d) then Some v else resolve (defaults p) x q)) \<and>
   (\<forall>s \<in> set (collections p). \<forall>t \<in> set (collections p).
      kernel s = kernel t \<and>
      map (resolve (defaults p) x) (slots s) = map (resolve (defaults p) x) (slots t) \<and>
      map (\<lambda>q. fst q = n \<and> (\<exists>d. snd q = Free d)) (slots s) =
        map (\<lambda>q. fst q = n \<and> (\<exists>d. snd q = Free d)) (slots t) \<longrightarrow>
      contribution (defaults p) (x(n \<mapsto> v)) s = contribution (defaults p) (x(n \<mapsto> v)) t) \<and>
   (\<forall>t \<in> set (collections p).
      (\<forall>q \<in> set (slots t). fst q = n \<longrightarrow> (\<forall>d. snd q \<noteq> Free d)) \<longrightarrow>
      contribution (defaults p) (x(n \<mapsto> v)) t = contribution (defaults p) x t)"
proof (intro conjI ballI impI)
  assume "get_lnlikelihood p x \<noteq> Inl MissingParameterError"
  then have "resolve_collections (defaults p) x (collections p) \<noteq> None"
    by (auto simp: get_lnlikelihood_def split: option.splits)
  then show "get_lnlikelihood p x =
      sum_series (map (contribution (defaults p) x) (collections p))"
    by (rule get_lnlikelihood_resolved)
next
  fix s :: series and q
  show "resolve (defaults p) (x(n \<mapsto> v)) q =
        (if fst q = n \<and> (\<exists>d. snd q = Free d) then Some v else resolve (defaults p) x q)"
    by (rule resolve_update)
next
  fix s t :: series
  assume "kernel s = kernel t \<and>
      map (resolve (defaults p) x) (slots s) = map (resolve (defaults p) x) (slots t) \<and>
      map (\<lambda>q. fst q = n \<and> (\<exists>d. snd q = Free d)) (slots s) =
        map (\<lambda>q. fst q = n \<and> (\<exists>d. snd q = Free d)) (slots t)"
  then show "contribution (defaults p) (x(n \<mapsto> v)) s = contribution (defaults p) (x(n \<mapsto> v)) t"
    by (intro contribution_identical) simp_all
next
  fix t :: series
  assume "\<forall>q \<in> set (slots t). fst q = n \<longrightarrow> (\<forall>d. snd q \<noteq> Free d)"
  then have "\<forall>q \<in> set (slots t). resolve (defaults p) (x(n \<mapsto> v)) q = resolve (defaults p) x q"
    by (auto simp: resolve_update)
  then have "resolve_all (defaults p) (x(n \<mapsto> v)) (slots t) = resolve_all (defaults p) x (slots t)"
    by (rule resolve_all_cong)
  then show "contribution (defaults p) (x(n \<mapsto> v)) t = contribution (defaults p) x t"
    by (simp add: contribution_def)
qed

theorem shared_parameter_propagates_witness:
  "demo_series ''A'' \<in> set (collections demo_twins) \<and>
   demo_series ''B'' \<in> set (collections demo_twins) \<and>
   kernel (demo_series ''A'') = kernel (demo_series ''B'') \<and>
   map (resolve (defaults demo_twins) demo_y) (slots (demo_series ''A'')) =
     map (resolve (defaults demo_twins) demo_y) (slots (demo_series ''B'')) \<and>
   map (\<lambda>q. fst q = ''log10_A_gw'' \<and> (\<exists>d. snd q = Free d)) (slots (demo_series ''A'')) =
     map (\<lambda>q. fst q = ''log10_A_gw'' \<and> (\<exists>d. snd q = Free d)) (slots (demo_series ''B'')) \<and>
   contribution (defaults demo_twins) (demo_y(''log10_A_gw'' \<mapsto> - 14)) (demo_series ''A'') =
     contribution (defaults demo_twins) (demo_y(''log10_A_gw'' \<mapsto> - 14)) (demo_series ''B'') \<and>
   ''A_log10_A'' \<notin> fst ` set (slots (demo_series ''B'')) \<and>
   contribution (defaults demo_twins) (demo_y(''A_log10_A'' \<mapsto> - 14)) (demo_series ''B'') =
     contribution (defaults demo_twins) demo_y (demo_series ''B'')"
proof -
  note shared = shared_parameter_propagates [of demo_twins demo_y "''log10_A_gw''" "- 14"]
  note priv = shared_parameter_propagates [of demo_twins demo_y "''A_log10_A''" "- 14"]
  from shared demo_twins_collections demo_twins_alike have same:
    "contribution (defaults demo_twins) (demo_y(''log10_A_gw'' \<mapsto> - 14)) (demo_series ''A'') =
     contribution (defaults demo_twins) (demo_y(''log10_A_gw'' \<mapsto> - 14)) (demo_series ''B'')"
    by blast
  from demo_twins_private have
    "\<forall>q \<in> set (slots (demo_series ''B'')). fst q = ''A_log10_A'' \<longrightarrow> (\<forall>d. snd q \<noteq> Free d)"
    by force
  with priv demo_twins_collections(2) have frame:
    "contribution (defaults demo_twins) (demo_y(''A_log10_A'' \<mapsto> - 14)) (demo_series ''B'') =
     contribution (defaults demo_twins) demo_y (demo_series ''B'')"
    by blast
  from demo_twins_collections demo_twins_alike same demo_twins_private frame show ?thesis
    by (intro conjI) simp_all
qed

section \<open>Properties of the marginal likelihood\<close>

lemma det_cong:
  assumes "\<And>i j. i < n \<Longrightarrow> j < n \<Longrightarrow> A i j = B i j"
  shows "det n A = det n B"
  using assms
proof (induction n arbitrary: A B)
  case 0
  show ?case by simp
next
  case (Suc n)
  have "(- 1) ^ i * A i 0 * det n (minor i A) = (- 1) ^ i * B i 0 * det n (minor i B)"
    if "i \<le> n" for i
  proof -
    from that have "A i 0 = B i 0" by (simp add: Suc.prems)
    moreover have "det n (minor i A) = det n (minor i B)"
      by (rule Suc.IH) (simp add: minor_def Suc.prems)
    ultimately show ?thesis by simp
  qed
  then show ?case
    unfolding det.simps by (intro sum.cong refl) simp
qed

lemma minor_upd_same: "minor r (A(r := v)) = minor r A"
  by (auto simp: minor_def fun_eq_iff)

lemma minor_upd_other:
  assumes "i \<noteq> r"
  shows "minor i (A(r := v)) = (minor i A)((if r < i then r else r - 1) := (\<lambda>c. v (Suc c)))"
  using assms by (auto simp: minor_def fun_eq_iff)

lemma det_row_linear:
  assumes "r < n"
  shows "det n (A(r := (\<lambda>j. a * u j + b * w j))) = a * det n (A(r := u)) + b * det n (A(r := w))"
  using assms
proof (induction n arbitrary: A r u w)
  case 0
  then show ?case by simp
next
  case (Suc n)
  let ?v = "\<lambda>j. a * u j + b * w j"
  have step: "(- 1) ^ i * (A(r := ?v)) i 0 * det n (minor i (A(r := ?v))) =
      a * ((- 1) ^ i * (A(r := u)) i 0 * det n (minor i (A(r := u)))) +
      b * ((- 1) ^ i * (A(r := w)) i 0 * det n (minor i (A(r := w))))"
    if "i \<le> n" for i
  proof (cases "i = r")
    case True
    then show ?thesis by (simp add: minor_upd_same algebra_simps)
  next
    case False
    define r' where "r' = (if r < i then r else r - 1)"
    from False that Suc.prems have "r' < n" by (auto simp: r'_def)
    from False have m: "minor i (A(r := v)) = (minor i A)(r' := (\<lambda>c. v (Suc c)))" for v
      by (simp add: minor_upd_other r'_def)
    from False have e: "(A(r := v)) i 0 = A i 0" for v
      by simp
    have "det n ((minor i A)(r' := (\<lambda>c. a * u (Suc c) + b * w (Suc c)))) =
        a * det n ((minor i A)(r' := (\<lambda>c. u (Suc c)))) +
        b * det n ((minor i A)(r' := (\<lambda>c. w (Suc c))))"
      by (rule Suc.IH [OF \<open>r' < n\<close>])
    then show ?thesis
      unfolding m e by (simp add: algebra_simps)
  qed
  have "det (Suc n) (A(r := ?v)) =
      (\<Sum>i\<le>n. a * ((- 1) ^ i * (A(r := u)) i 0 * det n (minor i (A(r := u)))) +
               b * ((- 1) ^ i * (A(r := w)) i 0 * det n (minor i (A(r := w)))))"
    unfolding det.simps by (intro sum.cong refl step) simp
  also have "\<dots> = a * det (Suc n) (A(r := u)) + b * det (Suc n) (A(r := w))"
    unfolding det.simps by (simp only: sum.distrib sum_distrib_left)
  finally show ?case .
qed

lemma det_adjacent_rows_eq:
  assumes "Suc r < n" "A r = A (Suc r)"
  shows "det n A = 0"
  using assms
proof (induction n arbitrary: A r)
  case 0
  then show ?case by simp
next
  case (Suc n)
  let ?t = "\<lambda>i. (- 1) ^ i * A i 0 * det n (minor i A)"
  from Suc.prems have r: "r < n" by simp
  have zero: "?t i = 0" if "i \<le> n" "i \<noteq> r" "i \<noteq> Suc r" for i
  proof (cases "i < r")
    case True
    then have "minor i A (r - 1) = minor i A (Suc (r - 1))"
      using Suc.prems(2) by (auto simp: minor_def fun_eq_iff)
    moreover from True r have "Suc (r - 1) < n" by simp
    ultimately have "det n (minor i A) = 0" by (rule Suc.IH [rotated])
    then show ?thesis by simp
  next
    case False
    with that have i: "Suc r < i" by simp
    then have "minor i A r = minor i A (Suc r)"
      using Suc.prems(2) by (auto simp: minor_def fun_eq_iff)
    moreover from i that have "Suc r < n" by simp
    ultimately have "det n (minor i A) = 0" by (rule Suc.IH [rotated])
    then show ?thesis by simp
  qed
  have "minor r A = minor (Suc r) A"
    using Suc.prems(2) by (auto simp: minor_def fun_eq_iff less_Suc_eq)
  with Suc.prems(2) have pair: "?t r + ?t (Suc r) = 0" by simp
  have "det (Suc n) A = (\<Sum>i\<le>n. ?t i)" by simp
  also have "\<dots> = ?t r + (\<Sum>i \<in> {..n} - {r}. ?t i)"
    by (rule sum.remove) (use r in simp_all)
  also have "(\<Sum>i \<in> {..n} - {r}. ?t i) = ?t (Suc r) + (\<Sum>i \<in> {..n} - {r} - {Suc r}. ?t i)"
    by (rule sum.remove) (use r in simp_all)
  also have "(\<Sum>i \<in> {..n} - {r} - {Suc r}. ?t i) = 0"
    by (rule sum.neutral) (use zero in auto)
  finally show ?case using pair by simp
qed

lemma det_swap_adjacent:
  assumes "Suc r < n"
  shows "det n (A(r := A (Suc r), Suc r := A r)) = - det n A"
proof -
  define u where "u = A r"
  define w where "w = A (Suc r)"
  define B where "B x y = A(r := x, Suc r := y)" for x y
  from assms have r: "r < n" by simp
  have lin1: "det n (B (\<lambda>j. 1 * x j + 1 * x' j) y) = 1 * det n (B x y) + 1 * det n (B x' y)"
    for x x' y
  proof -
    have "B v y = (A(Suc r := y))(r := v)" for v
      by (simp add: B_def fun_upd_twist)
    then show ?thesis by (simp only: det_row_linear [OF r])
  qed
  have lin2: "det n (B x (\<lambda>j. 1 * y j + 1 * y' j)) = 1 * det n (B x y) + 1 * det n (B x y')"
    for x y y'
    unfolding B_def by (rule det_row_linear [OF assms])
  have same: "det n (B x x) = 0" for x
    by (rule det_adjacent_rows_eq [OF assms]) (simp add: B_def)
  have "B u w = A" by (simp add: B_def u_def w_def)
  have "det n (B (\<lambda>j. 1 * u j + 1 * w j) (\<lambda>j. 1 * u j + 1 * w j)) = 0"
    by (rule same)
  then have "det n (B u w) + det n (B w u) = 0"
    unfolding lin1 lin2 same by simp
  with \<open>B u w = A\<close> have "det n (B w u) = - det n A" by simp
  then show ?thesis by (simp add: B_def u_def w_def)
qed

lemma det_rows_eq_less:
  assumes "r < s" "s < n" "A r = A s"
  shows "det n A = 0"
  using assms
proof (induction s arbitrary: A)
  case 0
  then show ?case by simp
next
  case (Suc s)
  show ?case
  proof (cases "r = s")
    case True
    with Suc.prems show ?thesis by (auto intro: det_adjacent_rows_eq)
  next
    case False
    with Suc.prems have rs: "r < s" by simp
    define A' where "A' = A(s := A (Suc s), Suc s := A s)"
    from Suc.prems have "det n A' = - det n A"
      unfolding A'_def by (intro det_swap_adjacent) simp
    moreover from rs Suc.prems have "A' r = A' s" by (simp add: A'_def)
    with rs Suc.prems have "det n A' = 0" by (intro Suc.IH) simp_all
    ultimately show ?thesis by simp
  qed
qed

lemma det_rows_eq:
  assumes "r \<noteq> s" "r < n" "s < n" "A r = A s"
  shows "det n A = 0"
proof (cases "r < s")
  case True
  with assms show ?thesis by (intro det_rows_eq_less [of r s]) simp_all
next
  case False
  with assms have "s < r" by simp
  with assms show ?thesis by (intro det_rows_eq_less [of s r]) simp_all
qed

lemma det_row_add:
  fixes k :: nat
  assumes "r < n" "\<forall>l<k. s l < n \<and> s l \<noteq> r"
  shows "det n (A(r := (\<lambda>j. A r j + (\<Sum>l<k. c l * A (s l) j)))) = det n A"
  using assms(2)
proof (induction k)
  case 0
  show ?case by simp
next
  case (Suc k)
  define u where "u = (\<lambda>j. A r j + (\<Sum>l<k. c l * A (s l) j))"
  from Suc.prems have sk: "s k < n" "s k \<noteq> r" by simp_all
  have eq: "(\<lambda>j. A r j + (\<Sum>l<Suc k. c l * A (s l) j)) = (\<lambda>j. 1 * u j + c k * A (s k) j)"
    by (simp add: u_def fun_eq_iff)
  from Suc.prems have IH: "det n (A(r := u)) = det n A"
    unfolding u_def by (intro Suc.IH) simp
  from sk assms(1) have zero: "det n (A(r := A (s k))) = 0"
    by (intro det_rows_eq [of r "s k"]) simp_all
  have "det n (A(r := (\<lambda>j. A r j + (\<Sum>l<Suc k. c l * A (s l) j)))) =
      det n (A(r := (\<lambda>j. 1 * u j + c k * A (s k) j)))"
    by (simp only: eq)
  also have "\<dots> = 1 * det n (A(r := u)) + c k * det n (A(r := A (s k)))"
    by (rule det_row_linear [OF assms(1)])
  also have "\<dots> = det n A"
    by (simp add: IH zero)
  finally show ?case .
qed

lemma det_rows_add:
  fixes tgt :: "nat \<Rightarrow> bool" and k :: nat
  assumes "\<forall>l<k. s l < n \<and> \<not> tgt (s l)"
  shows "det n (\<lambda>i. if tgt i then (\<lambda>j. A i j + (\<Sum>l<k. X i l * A (s l) j)) else A i) = det n A"
proof -
  define B where
    "B t = (\<lambda>i. if tgt i \<and> i < t then (\<lambda>j. A i j + (\<Sum>l<k. X i l * A (s l) j)) else A i)" for t
  have "det n (B t) = det n A" if "t \<le> n" for t
    using that
  proof (induction t)
    case 0
    show ?case by (simp add: B_def)
  next
    case (Suc t)
    then have t: "t < n" and IH: "det n (B t) = det n A" by simp_all
    show ?case
    proof (cases "tgt t")
      case True
      with assms have src: "\<forall>l<k. s l < n \<and> s l \<noteq> t" by auto
      from assms have "B t (s l) = A (s l)" if "l < k" for l
        using that by (simp add: B_def)
      then have "(\<Sum>l<k. X t l * B t (s l) j) = (\<Sum>l<k. X t l * A (s l) j)" for j
        by simp
      moreover have "B t t = A t" by (simp add: B_def)
      ultimately have "B (Suc t) = (B t)(t := (\<lambda>j. B t t j + (\<Sum>l<k. X t l * B t (s l) j)))"
        using True by (auto simp: B_def fun_eq_iff less_Suc_eq)
      then have "det n (B (Suc t)) = det n (B t)"
        by (simp only: det_row_add [OF t src])
      with IH show ?thesis by simp
    next
      case False
      then have "B (Suc t) = B t" by (auto simp: B_def fun_eq_iff less_Suc_eq)
      with IH show ?thesis by simp
    qed
  qed
  then have "det n (B n) = det n A" by simp
  moreover have "det n (\<lambda>i. if tgt i then (\<lambda>j. A i j + (\<Sum>l<k. X i l * A (s l) j)) else A i) =
      det n (B n)"
    by (rule det_cong) (simp add: B_def)
  ultimately show ?thesis by simp
qed

lemma det_block_upper:
  assumes "\<And>i j. n \<le> i \<Longrightarrow> i < n + k \<Longrightarrow> j < n \<Longrightarrow> M i j = 0"
  shows "det (n + k) M = det n M * det k (\<lambda>i j. M (n + i) (n + j))"
  using assms
proof (induction n arbitrary: M)
  case 0
  show ?case by simp
next
  case (Suc n)
  define D where "D = det k (\<lambda>i j. M (Suc n + i) (Suc n + j))"
  let ?t = "\<lambda>i. (- 1) ^ i * M i 0 * det (n + k) (minor i M)"
  have low: "?t i = 0" if "i \<in> {..n + k} - {..n}" for i
  proof -
    from that have "Suc n \<le> i" "i < Suc n + k" by auto
    then have "M i 0 = 0" by (intro Suc.prems) simp_all
    then show ?thesis by simp
  qed
  have top: "?t i = (- 1) ^ i * M i 0 * det n (minor i M) * D" if "i \<le> n" for i
  proof -
    have "det (n + k) (minor i M) =
        det n (minor i M) * det k (\<lambda>a b. minor i M (n + a) (n + b))"
    proof (rule Suc.IH)
      fix q j
      assume "n \<le> q" "q < n + k" "j < n"
      with that have "minor i M q j = M (Suc q) (Suc j)" by (simp add: minor_def)
      also from \<open>n \<le> q\<close> \<open>q < n + k\<close> \<open>j < n\<close> have "\<dots> = 0"
        by (intro Suc.prems) simp_all
      finally show "minor i M q j = 0" .
    qed
    moreover from that have "(\<lambda>a b. minor i M (n + a) (n + b)) =
        (\<lambda>i j. M (Suc n + i) (Suc n + j))"
      by (simp add: minor_def fun_eq_iff)
    ultimately show ?thesis by (simp add: D_def)
  qed
  have "det (Suc n + k) M = (\<Sum>i\<le>n + k. ?t i)" by simp
  also have "\<dots> = (\<Sum>i\<le>n. ?t i)"
    by (rule sum.mono_neutral_right) (use low in auto)
  also have "\<dots> = (\<Sum>i\<le>n. (- 1) ^ i * M i 0 * det n (minor i M) * D)"
    by (intro sum.cong refl top) simp
  also have "\<dots> = det (Suc n) M * D"
    by (simp add: sum_distrib_right)
  finally show ?case by (simp add: D_def)
qed

lemma det_one: "det n (\<lambda>i j. if i = j then 1 else 0) = 1"
proof (induction n)
  case 0
  show ?case by simp
next
  case (Suc n)
  let ?I = "\<lambda>i j :: nat. if i = j then 1 else 0 :: real"
  have "minor 0 ?I = ?I" by (simp add: minor_def fun_eq_iff)
  have "det (Suc n) ?I = (\<Sum>i\<le>n. if i = 0 then det n (minor 0 ?I) else 0)"
    unfolding det.simps by (intro sum.cong refl) simp
  also have "\<dots> = det n (minor 0 ?I)" by simp
  finally show ?case using \<open>minor 0 ?I = ?I\<close> Suc.IH by simp
qed

lemma mmul_assoc: "mmul m (mmul l A B) C = mmul l A (mmul m B C)"
proof (intro ext)
  fix i j
  have "mmul m (mmul l A B) C i j = (\<Sum>b<m. \<Sum>a<l. A i a * B a b * C b j)"
    by (simp add: mmul_def sum_distrib_right)
  also have "\<dots> = (\<Sum>a<l. \<Sum>b<m. A i a * B a b * C b j)"
    by (rule sum.swap)
  also have "\<dots> = mmul l A (mmul m B C) i j"
    by (simp add: mmul_def sum_distrib_left mult.assoc)
  finally show "mmul m (mmul l A B) C i j = mmul l A (mmul m B C) i j" .
qed

lemma mmul_cong_right:
  assumes "\<And>l. l < m \<Longrightarrow> B l j = B' l j"
  shows "mmul m A B i j = mmul m A B' i j"
  unfolding mmul_def by (intro sum.cong refl) (simp add: assms)

lemma mmul_cong_left:
  assumes "\<And>l. l < m \<Longrightarrow> A i l = A' i l"
  shows "mmul m A B i j = mmul m A' B i j"
  unfolding mmul_def by (intro sum.cong refl) (simp add: assms)

lemma mmul_one_right:
  assumes "j < m"
  shows "mmul m A mone i j = A i j"
proof -
  have "mmul m A mone i j = (\<Sum>l<m. if l = j then A i j else 0)"
    unfolding mmul_def mone_def by (intro sum.cong refl) simp
  also from assms have "\<dots> = A i j" by simp
  finally show ?thesis .
qed

lemma mmul_one_left:
  assumes "i < m"
  shows "mmul m mone A i j = A i j"
proof -
  have "mmul m mone A i j = (\<Sum>l<m. if l = i then A i j else 0)"
    unfolding mmul_def mone_def by (intro sum.cong refl) simp
  also from assms have "\<dots> = A i j" by simp
  finally show ?thesis .
qed

lemma det_block_cong:
  assumes "\<And>i j. i < n \<Longrightarrow> j < n \<Longrightarrow> A i j = A' i j"
    and "\<And>i j. i < n \<Longrightarrow> j < k \<Longrightarrow> B i j = B' i j"
    and "\<And>i j. i < k \<Longrightarrow> j < n \<Longrightarrow> C i j = C' i j"
    and "\<And>i j. i < k \<Longrightarrow> j < k \<Longrightarrow> D i j = D' i j"
  shows "det (n + k) (block n A B C D) = det (n + k) (block n A' B' C' D')"
  by (rule det_cong) (auto simp: block_def assms)

lemma det_block_upper_triangular:
  "det (n + k) (block n A B mzero D) = det n A * det k D"
proof -
  have "det (n + k) (block n A B mzero D) =
      det n (block n A B mzero D) * det k (\<lambda>i j. block n A B mzero D (n + i) (n + j))"
    by (rule det_block_upper) (simp add: block_def mzero_def)
  moreover have "det n (block n A B mzero D) = det n A"
    by (rule det_cong) (simp add: block_def)
  moreover have "(\<lambda>i j. block n A B mzero D (n + i) (n + j)) = D"
    by (simp add: block_def fun_eq_iff)
  ultimately show ?thesis by simp
qed

lemma det_block_add_to_top:
  "det (n + k) (block n (madd A (mmul k X C)) (madd B (mmul k X D)) C D) =
   det (n + k) (block n A B C D)"
proof -
  let ?M = "block n A B C D"
  have "det (n + k) (\<lambda>i. if i < n then (\<lambda>j. ?M i j + (\<Sum>l<k. X i l * ?M (n + l) j)) else ?M i) =
      det (n + k) ?M"
    by (rule det_rows_add) simp
  moreover have "(\<lambda>i. if i < n then (\<lambda>j. ?M i j + (\<Sum>l<k. X i l * ?M (n + l) j)) else ?M i) =
      block n (madd A (mmul k X C)) (madd B (mmul k X D)) C D"
    by (auto simp: block_def madd_def mmul_def fun_eq_iff)
  ultimately show ?thesis by simp
qed

lemma det_block_add_to_bottom:
  "det (n + k) (block n A B (madd C (mmul n Y A)) (madd D (mmul n Y B))) =
   det (n + k) (block n A B C D)"
proof -
  let ?M = "block n A B C D"
  have "det (n + k)
      (\<lambda>i. if n \<le> i then (\<lambda>j. ?M i j + (\<Sum>l<n. Y (i - n) l * ?M l j)) else ?M i) =
      det (n + k) ?M"
    by (rule det_rows_add) simp
  moreover have
    "(\<lambda>i. if n \<le> i then (\<lambda>j. ?M i j + (\<Sum>l<n. Y (i - n) l * ?M l j)) else ?M i) =
      block n A B (madd C (mmul n Y A)) (madd D (mmul n Y B))"
    by (auto simp: block_def madd_def mmul_def fun_eq_iff)
  ultimately show ?thesis by simp
qed

lemma madd_apply: "madd A B i j = A i j + B i j"
  by (simp add: madd_def)

lemma mneg_apply: "mneg A i j = - A i j"
  by (simp add: mneg_def)

lemma mzero_apply: "mzero i j = 0"
  by (simp add: mzero_def)

lemma mmul_mneg_left: "mmul m (mneg A) B i j = - mmul m A B i j"
  by (simp add: mmul_def mneg_def sum_negf)

lemma mmul_mneg_right: "mmul m A (mneg B) i j = - mmul m A B i j"
  by (simp add: mmul_def mneg_def sum_negf)

lemma mmul_zero_right: "mmul m A mzero i j = 0"
  by (simp add: mmul_def mzero_def)

lemma mmul_zero_left: "mmul m mzero A i j = 0"
  by (simp add: mmul_def mzero_def)

lemmas mat_simps = madd_apply mneg_apply mzero_apply mmul_mneg_left mmul_mneg_right
  mmul_zero_right mmul_zero_left mmul_one_right mmul_one_left

lemma inverse_ofD:
  assumes "inverse_of n A B" "i < n" "j < n"
  shows "mmul n A B i j = mone i j" "mmul n B A i j = mone i j"
  using assms by (simp_all add: inverse_of_def)

text \<open>A product with an inverse pair in the middle or at the end collapses.\<close>

lemma mmul_inverse_right:
  assumes "inverse_of m A B" "j < m"
  shows "mmul m (mmul m X A) B i j = X i j"
proof -
  have "mmul m (mmul m X A) B i j = mmul m X (mmul m A B) i j"
    by (simp only: mmul_assoc)
  also have "\<dots> = mmul m X mone i j"
    by (rule mmul_cong_right) (simp add: inverse_ofD [OF assms(1)] assms(2))
  also from assms(2) have "\<dots> = X i j" by (rule mmul_one_right)
  finally show ?thesis .
qed

lemma det_inverse:
  assumes "inverse_of k P Q"
  shows "det k P * det k Q = 1"
proof -
  note inv = inverse_ofD [OF assms]
  have "det k P * det k Q = det (k + k) (block k P mone mzero Q)"
    by (simp add: det_block_upper_triangular)
  also have "\<dots> = det (k + k) (block k P mone
      (madd mzero (mmul k (mneg Q) P)) (madd Q (mmul k (mneg Q) mone)))"
    by (simp only: det_block_add_to_bottom)
  also have "\<dots> = det (k + k) (block k P mone (mneg mone) mzero)"
    by (rule det_block_cong) (simp_all add: mat_simps inv)
  also have "\<dots> = det (k + k) (block k
      (madd P (mmul k P (mneg mone))) (madd mone (mmul k P mzero)) (mneg mone) mzero)"
    by (simp only: det_block_add_to_top)
  also have "\<dots> = det (k + k) (block k mzero mone (mneg mone) mzero)"
    by (rule det_block_cong) (simp_all add: mat_simps)
  also have "\<dots> = det (k + k) (block k
      (madd mzero (mmul k (mneg mone) (mneg mone))) (madd mone (mmul k (mneg mone) mzero))
      (mneg mone) mzero)"
    by (simp only: det_block_add_to_top)
  also have "\<dots> = det (k + k) (block k mone mone (mneg mone) mzero)"
    by (rule det_block_cong) (simp_all add: mat_simps)
  also have "\<dots> = det (k + k) (block k mone mone
      (madd (mneg mone) (mmul k mone mone)) (madd mzero (mmul k mone mone)))"
    by (simp only: det_block_add_to_bottom)
  also have "\<dots> = det (k + k) (block k mone mone mzero mone)"
    by (rule det_block_cong) (simp_all add: mat_simps)
  also have "\<dots> = det k mone * det k mone"
    by (rule det_block_upper_triangular)
  also have "\<dots> = 1"
    by (simp add: mone_def det_one)
  finally show ?thesis .
qed

lemma det_dense_cov:
  assumes N: "inverse_of n N Ninv" and Phi: "inverse_of k Phi Phiinv"
    and Sigma: "inverse_of k (woodbury_sigma n F Ninv Phiinv) Sigmainv"
  shows "det n (dense_cov k N F Phi) =
         det n N * det k Phi * det k (woodbury_sigma n F Ninv Phiinv)"
proof -
  let ?Ft = "mtranspose F"
  let ?S = "woodbury_sigma n F Ninv Phiinv"
  let ?C = "dense_cov k N F Phi"
  let ?M = "block k Phiinv (mneg ?Ft) F N"
  let ?Y = "mneg (mmul k F Phi)"
  let ?X = "mmul n ?Ft Ninv"
  let ?Z = "mneg (mmul k F Sigmainv)"
  have "det (k + n) ?M = det (k + n) (block k Phiinv (mneg ?Ft)
      (madd F (mmul k ?Y Phiinv)) (madd N (mmul k ?Y (mneg ?Ft))))"
    by (simp only: det_block_add_to_bottom)
  also have "\<dots> = det (k + n) (block k Phiinv (mneg ?Ft) mzero ?C)"
  proof (rule det_block_cong)
    fix i j assume "i < n" "j < k"
    then show "madd F (mmul k ?Y Phiinv) i j = mzero i j"
      by (simp add: mat_simps mmul_inverse_right [OF Phi])
  next
    fix i j assume "i < n" "j < n"
    show "madd N (mmul k ?Y (mneg ?Ft)) i j = ?C i j"
      by (simp add: mat_simps dense_cov_def mmul_assoc)
  qed simp_all
  also have "\<dots> = det k Phiinv * det n ?C"
    by (rule det_block_upper_triangular)
  finally have one: "det (k + n) ?M = det k Phiinv * det n ?C" .
  have "det (k + n) ?M = det (k + n) (block k
      (madd Phiinv (mmul n ?X F)) (madd (mneg ?Ft) (mmul n ?X N)) F N)"
    by (simp only: det_block_add_to_top)
  also have "\<dots> = det (k + n) (block k ?S mzero F N)"
  proof (rule det_block_cong)
    fix i j assume "i < k" "j < k"
    show "madd Phiinv (mmul n ?X F) i j = ?S i j"
      by (simp add: mat_simps woodbury_sigma_def mmul_assoc)
  next
    fix i j assume "i < k" "j < n"
    with N have "mmul n (mmul n ?Ft Ninv) N i j = ?Ft i j"
      by (intro mmul_inverse_right) (simp_all add: inverse_of_def)
    then show "madd (mneg ?Ft) (mmul n ?X N) i j = mzero i j"
      by (simp add: mat_simps)
  qed simp_all
  also have "\<dots> = det (k + n) (block k ?S mzero
      (madd F (mmul k ?Z ?S)) (madd N (mmul k ?Z mzero)))"
    by (simp only: det_block_add_to_bottom)
  also have "\<dots> = det (k + n) (block k ?S mzero mzero N)"
  proof (rule det_block_cong)
    fix i j assume "i < n" "j < k"
    with Sigma have "mmul k (mmul k F Sigmainv) ?S i j = F i j"
      by (intro mmul_inverse_right) (simp_all add: inverse_of_def)
    then show "madd F (mmul k ?Z ?S) i j = mzero i j"
      by (simp add: mat_simps)
  next
    fix i j assume "i < n" "j < n"
    show "madd N (mmul k ?Z mzero) i j = N i j"
      by (simp add: mat_simps)
  qed simp_all
  also have "\<dots> = det k ?S * det n N"
    by (rule det_block_upper_triangular)
  finally have two: "det (k + n) ?M = det k ?S * det n N" .
  from one two have eq: "det k Phiinv * det n ?C = det k ?S * det n N" by simp
  have "det n ?C = (det k Phi * det k Phiinv) * det n ?C"
    by (simp only: det_inverse [OF Phi] mult_1_left)
  also have "\<dots> = det k Phi * (det k Phiinv * det n ?C)"
    by (simp only: mult.assoc)
  also have "\<dots> = det k Phi * (det k ?S * det n N)"
    by (simp only: eq)
  also have "\<dots> = det n N * det k Phi * det k ?S"
    by (simp only: mult_ac)
  finally show ?thesis .
qed

lemma meqI: "(\<And>i j. i < n \<Longrightarrow> j < m \<Longrightarrow> A i j = B i j) \<Longrightarrow> meq n m A B"
  by (simp add: meq_def)

lemma meqD: "meq n m A B \<Longrightarrow> i < n \<Longrightarrow> j < m \<Longrightarrow> A i j = B i j"
  by (simp add: meq_def)

lemma meq_refl: "meq n m A A"
  by (simp add: meq_def)

lemma meq_sym: "meq n m A B \<Longrightarrow> meq n m B A"
  by (simp add: meq_def)

lemma meq_trans: "meq n m A B \<Longrightarrow> meq n m B C \<Longrightarrow> meq n m A C"
  by (simp add: meq_def)

lemma meq_mmul_left:
  assumes "meq n m A A'"
  shows "meq n p (mmul m A B) (mmul m A' B)"
  by (rule meqI, rule mmul_cong_left) (simp add: meqD [OF assms])

lemma meq_mmul_right:
  assumes "meq m p B B'"
  shows "meq n p (mmul m A B) (mmul m A B')"
  by (rule meqI, rule mmul_cong_right) (simp add: meqD [OF assms])

lemma meq_mmul_one_right: "meq n m (mmul m A mone) A"
  by (rule meqI) (simp add: mmul_one_right)

lemma meq_mmul_one_left: "meq n m (mmul n mone A) A"
  by (rule meqI) (simp add: mmul_one_left)

lemma inverse_of_meq:
  "inverse_of n A B \<longleftrightarrow> meq n n (mmul n A B) mone \<and> meq n n (mmul n B A) mone"
  by (auto simp: inverse_of_def meq_def)

lemma mmul_madd_left: "mmul m (madd A B) C = madd (mmul m A C) (mmul m B C)"
  by (simp add: mmul_def madd_def fun_eq_iff sum.distrib distrib_right)

lemma mmul_madd_right: "mmul m A (madd B C) = madd (mmul m A B) (mmul m A C)"
  by (simp add: mmul_def madd_def fun_eq_iff sum.distrib distrib_left)

lemma mmul_mneg_left_fun: "mmul m (mneg A) B = mneg (mmul m A B)"
  by (simp add: fun_eq_iff mmul_mneg_left mneg_apply)

lemma mmul_mneg_right_fun: "mmul m A (mneg B) = mneg (mmul m A B)"
  by (simp add: fun_eq_iff mmul_mneg_right mneg_apply)

text \<open>Both collapses of a product around an inverse pair, as equalities on a block.\<close>

lemma meq_cancel_right:
  assumes "meq m m (mmul m A B) mone"
  shows "meq n m (mmul m (mmul m X A) B) X"
proof -
  have "meq n m (mmul m X (mmul m A B)) (mmul m X mone)"
    using assms by (rule meq_mmul_right)
  then have "meq n m (mmul m X (mmul m A B)) X"
    by (rule meq_trans) (rule meq_mmul_one_right)
  then show ?thesis by (simp only: mmul_assoc)
qed

lemma meq_cancel_left:
  assumes "meq m m (mmul m A B) mone"
  shows "meq m p (mmul m A (mmul m B X)) X"
proof -
  have "meq m p (mmul m (mmul m A B) X) (mmul m mone X)"
    using assms by (rule meq_mmul_left)
  then have "meq m p (mmul m (mmul m A B) X) X"
    by (rule meq_trans) (rule meq_mmul_one_left)
  then show ?thesis by (simp only: mmul_assoc)
qed

lemma woodbury_right:
  assumes N: "inverse_of n N Ninv" and Phi: "inverse_of k Phi Phiinv"
    and Sigma: "inverse_of k (woodbury_sigma n F Ninv Phiinv) Sigmainv"
  shows "meq n n (mmul n (dense_cov k N F Phi) (woodbury_inverse n k F Ninv Sigmainv)) mone"
proof -
  let ?Ft = "mtranspose F"
  define G where "G = mmul n Ninv F"
  define H where "H = mmul n ?Ft Ninv"
  define S where "S = woodbury_sigma n F Ninv Phiinv"
  define FSH where "FSH = mmul k (mmul k F Sigmainv) H"
  define FPH where "FPH = mmul k (mmul k F Phi) H"
  from N have NN: "meq n n (mmul n N Ninv) mone" by (simp add: inverse_of_meq)
  from Phi have PP: "meq k k (mmul k Phi Phiinv) mone" by (simp add: inverse_of_meq)
  from Sigma have SS: "meq k k (mmul k S Sigmainv) mone" by (simp add: inverse_of_meq S_def)
  have FtG: "mmul n ?Ft G = madd S (mneg Phiinv)"
    by (simp add: S_def woodbury_sigma_def G_def madd_def mneg_def fun_eq_iff)
  have NG: "meq n k (mmul n N G) F"
    unfolding G_def using NN by (rule meq_cancel_left)
  have e1: "meq n n (mmul n N (mmul k (mmul k G Sigmainv) H)) FSH"
  proof -
    have "mmul n N (mmul k (mmul k G Sigmainv) H) = mmul k (mmul k (mmul n N G) Sigmainv) H"
      by (simp only: mmul_assoc)
    moreover have "meq n n (mmul k (mmul k (mmul n N G) Sigmainv) H) FSH"
      unfolding FSH_def by (intro meq_mmul_left NG)
    ultimately show ?thesis by simp
  qed
  have e2: "mmul n (mmul k F (mmul k Phi ?Ft)) Ninv = FPH"
    by (simp only: FPH_def H_def mmul_assoc)
  have e3: "meq n n (mmul n (mmul k F (mmul k Phi ?Ft)) (mmul k (mmul k G Sigmainv) H))
      (madd FPH (mneg FSH))"
  proof -
    have "mmul n (mmul k F (mmul k Phi ?Ft)) (mmul k (mmul k G Sigmainv) H) =
        mmul k (mmul k (mmul k (mmul k F Phi) (mmul n ?Ft G)) Sigmainv) H"
      by (simp only: mmul_assoc)
    also have "\<dots> = madd (mmul k (mmul k (mmul k (mmul k F Phi) S) Sigmainv) H)
        (mneg (mmul k (mmul k (mmul k (mmul k F Phi) Phiinv) Sigmainv) H))"
      by (simp only: FtG mmul_madd_right mmul_madd_left mmul_mneg_right_fun mmul_mneg_left_fun)
    finally have split: "mmul n (mmul k F (mmul k Phi ?Ft)) (mmul k (mmul k G Sigmainv) H) =
        madd (mmul k (mmul k (mmul k (mmul k F Phi) S) Sigmainv) H)
        (mneg (mmul k (mmul k (mmul k (mmul k F Phi) Phiinv) Sigmainv) H))" .
    have a: "meq n n (mmul k (mmul k (mmul k (mmul k F Phi) S) Sigmainv) H) FPH"
      unfolding FPH_def by (intro meq_mmul_left meq_cancel_right SS)
    have b: "meq n n (mmul k (mmul k (mmul k (mmul k F Phi) Phiinv) Sigmainv) H) FSH"
      unfolding FSH_def by (intro meq_mmul_left meq_cancel_right PP)
    show ?thesis
      unfolding split by (rule meqI) (simp add: madd_apply mneg_apply meqD [OF a] meqD [OF b])
  qed
  show ?thesis
  proof (rule meqI)
    fix i j assume ij: "i < n" "j < n"
    have "mmul n (dense_cov k N F Phi) (woodbury_inverse n k F Ninv Sigmainv) i j =
        mmul n N Ninv i j - mmul n N (mmul k (mmul k G Sigmainv) H) i j +
        (mmul n (mmul k F (mmul k Phi ?Ft)) Ninv i j -
         mmul n (mmul k F (mmul k Phi ?Ft)) (mmul k (mmul k G Sigmainv) H) i j)"
      by (simp add: dense_cov_def woodbury_inverse_def G_def H_def mmul_madd_left mmul_madd_right
          mmul_mneg_right_fun madd_apply mneg_apply)
    also have "\<dots> = mone i j"
      by (simp add: meqD [OF NN ij] meqD [OF e1 ij] e2 meqD [OF e3 ij] madd_apply mneg_apply)
    finally show "mmul n (dense_cov k N F Phi) (woodbury_inverse n k F Ninv Sigmainv) i j =
        mone i j" .
  qed
qed

lemma woodbury_left:
  assumes N: "inverse_of n N Ninv" and Phi: "inverse_of k Phi Phiinv"
    and Sigma: "inverse_of k (woodbury_sigma n F Ninv Phiinv) Sigmainv"
  shows "meq n n (mmul n (woodbury_inverse n k F Ninv Sigmainv) (dense_cov k N F Phi)) mone"
proof -
  let ?Ft = "mtranspose F"
  define G where "G = mmul n Ninv F"
  define H where "H = mmul n ?Ft Ninv"
  define S where "S = woodbury_sigma n F Ninv Phiinv"
  define GSF where "GSF = mmul k G (mmul k Sigmainv ?Ft)"
  define GPF where "GPF = mmul k G (mmul k Phi ?Ft)"
  from N have NN: "meq n n (mmul n Ninv N) mone" by (simp add: inverse_of_meq)
  from Phi have PP: "meq k k (mmul k Phiinv Phi) mone" by (simp add: inverse_of_meq)
  from Sigma have SS: "meq k k (mmul k Sigmainv S) mone" by (simp add: inverse_of_meq S_def)
  have HF: "mmul n H F = madd S (mneg Phiinv)"
    by (simp add: S_def woodbury_sigma_def H_def mmul_assoc madd_def mneg_def fun_eq_iff)
  have HN: "meq k n (mmul n H N) ?Ft"
    unfolding H_def using NN by (rule meq_cancel_right)
  have e1: "meq n n (mmul n (mmul k (mmul k G Sigmainv) H) N) GSF"
  proof -
    have "mmul n (mmul k (mmul k G Sigmainv) H) N = mmul k G (mmul k Sigmainv (mmul n H N))"
      by (simp only: mmul_assoc)
    moreover have "meq n n (mmul k G (mmul k Sigmainv (mmul n H N))) GSF"
      unfolding GSF_def by (intro meq_mmul_right HN)
    ultimately show ?thesis by simp
  qed
  have e2: "mmul n Ninv (mmul k F (mmul k Phi ?Ft)) = GPF"
    by (simp only: GPF_def G_def mmul_assoc)
  have e3: "meq n n (mmul n (mmul k (mmul k G Sigmainv) H) (mmul k F (mmul k Phi ?Ft)))
      (madd GPF (mneg GSF))"
  proof -
    have "mmul n (mmul k (mmul k G Sigmainv) H) (mmul k F (mmul k Phi ?Ft)) =
        mmul k G (mmul k Sigmainv (mmul k (mmul n H F) (mmul k Phi ?Ft)))"
      by (simp only: mmul_assoc)
    also have "\<dots> = madd (mmul k G (mmul k Sigmainv (mmul k S (mmul k Phi ?Ft))))
        (mneg (mmul k G (mmul k Sigmainv (mmul k Phiinv (mmul k Phi ?Ft)))))"
      by (simp only: HF mmul_madd_right mmul_madd_left mmul_mneg_right_fun mmul_mneg_left_fun)
    finally have split: "mmul n (mmul k (mmul k G Sigmainv) H) (mmul k F (mmul k Phi ?Ft)) =
        madd (mmul k G (mmul k Sigmainv (mmul k S (mmul k Phi ?Ft))))
        (mneg (mmul k G (mmul k Sigmainv (mmul k Phiinv (mmul k Phi ?Ft)))))" .
    have a: "meq n n (mmul k G (mmul k Sigmainv (mmul k S (mmul k Phi ?Ft)))) GPF"
      unfolding GPF_def by (intro meq_mmul_right meq_cancel_left SS)
    have b: "meq n n (mmul k G (mmul k Sigmainv (mmul k Phiinv (mmul k Phi ?Ft)))) GSF"
      unfolding GSF_def by (intro meq_mmul_right meq_cancel_left PP)
    show ?thesis
      unfolding split by (rule meqI) (simp add: madd_apply mneg_apply meqD [OF a] meqD [OF b])
  qed
  show ?thesis
  proof (rule meqI)
    fix i j assume ij: "i < n" "j < n"
    have "mmul n (woodbury_inverse n k F Ninv Sigmainv) (dense_cov k N F Phi) i j =
        mmul n Ninv N i j + mmul n Ninv (mmul k F (mmul k Phi ?Ft)) i j -
        (mmul n (mmul k (mmul k G Sigmainv) H) N i j +
         mmul n (mmul k (mmul k G Sigmainv) H) (mmul k F (mmul k Phi ?Ft)) i j)"
      by (simp add: dense_cov_def woodbury_inverse_def G_def H_def mmul_madd_left mmul_madd_right
          mmul_mneg_left_fun madd_apply mneg_apply)
    also have "\<dots> = mone i j"
      by (simp add: meqD [OF NN ij] meqD [OF e1 ij] e2 meqD [OF e3 ij] madd_apply mneg_apply)
    finally show "mmul n (woodbury_inverse n k F Ninv Sigmainv) (dense_cov k N F Phi) i j =
        mone i j" .
  qed
qed

lemma inverse_of_unique:
  assumes "inverse_of n A B" "inverse_of n A B'"
  shows "meq n n B B'"
proof -
  from assms(2) have "meq n n (mmul n A B') mone" by (simp add: inverse_of_meq)
  then have "meq n n (mmul n B (mmul n A B')) (mmul n B mone)"
    by (rule meq_mmul_right)
  then have one: "meq n n (mmul n B (mmul n A B')) B"
    by (rule meq_trans) (rule meq_mmul_one_right)
  from assms(1) have "meq n n (mmul n B A) mone" by (simp add: inverse_of_meq)
  then have "meq n n (mmul n (mmul n B A) B') (mmul n mone B')"
    by (rule meq_mmul_left)
  then have "meq n n (mmul n (mmul n B A) B') B'"
    by (rule meq_trans) (rule meq_mmul_one_left)
  then have two: "meq n n (mmul n B (mmul n A B')) B'"
    by (simp only: mmul_assoc)
  from meq_sym [OF one] two show ?thesis by (rule meq_trans)
qed

lemma inverse_of_symmetric:
  assumes "inverse_of n N Ninv" and "\<forall>i<n. \<forall>j<n. N i j = N j i"
  shows "meq n n Ninv (mtranspose Ninv)"
proof -
  have "inverse_of n N (mtranspose Ninv)"
    unfolding inverse_of_def
  proof (intro allI impI conjI)
    fix i j assume ij: "i < n" "j < n"
    have "mmul n N (mtranspose Ninv) i j = mmul n Ninv N j i"
      unfolding mmul_def mtranspose_def
      by (intro sum.cong refl) (use assms(2) ij in \<open>simp add: mult.commute\<close>)
    with assms(1) ij show "mmul n N (mtranspose Ninv) i j = mone i j"
      by (simp add: inverse_of_def mone_def)
    have "mmul n (mtranspose Ninv) N i j = mmul n N Ninv j i"
      unfolding mmul_def mtranspose_def
      by (intro sum.cong refl) (use assms(2) ij in \<open>simp add: mult.commute\<close>)
    with assms(1) ij show "mmul n (mtranspose Ninv) N i j = mone i j"
      by (simp add: inverse_of_def mone_def)
  qed
  with assms(1) show ?thesis by (rule inverse_of_unique)
qed

lemma mtranspose_mmul: "mtranspose (mmul m A B) = mmul m (mtranspose B) (mtranspose A)"
  by (simp add: mtranspose_def mmul_def fun_eq_iff mult.commute)

lemma quad_mmul: "quad n r A = mmul n (mmul n (\<lambda>i j. r j) A) (\<lambda>i j. r i) 0 0"
proof -
  have "quad n r A = (\<Sum>j<n. \<Sum>i<n. r i * A i j * r j)"
    unfolding quad_def by (rule sum.swap)
  also have "\<dots> = mmul n (mmul n (\<lambda>i j. r j) A) (\<lambda>i j. r i) 0 0"
    by (simp add: mmul_def sum_distrib_right)
  finally show ?thesis .
qed

lemma quad_cong: "meq n n A B \<Longrightarrow> quad n r A = quad n r B"
  unfolding quad_def by (intro sum.cong refl) (simp add: meq_def)

lemma det_nonzero:
  assumes "inverse_of n A B"
  shows "det n A \<noteq> 0"
  using det_inverse [OF assms] by auto

lemma ln_abs_det_dense_cov:
  assumes N: "inverse_of n N Ninv" and Phi: "inverse_of k Phi Phiinv"
    and Sigma: "inverse_of k (woodbury_sigma n F Ninv Phiinv) Sigmainv"
  shows "ln \<bar>det n (dense_cov k N F Phi)\<bar> =
         ln \<bar>det n N\<bar> + ln \<bar>det k Phi\<bar> + ln \<bar>det k (woodbury_sigma n F Ninv Phiinv)\<bar>"
proof -
  note nz = det_nonzero [OF N] det_nonzero [OF Phi] det_nonzero [OF Sigma]
  show ?thesis
    unfolding det_dense_cov [OF assms] using nz by (simp add: abs_mult ln_mult)
qed

lemma quad_woodbury_inverse:
  assumes N: "inverse_of n N Ninv" and sym: "\<forall>i<n. \<forall>j<n. N i j = N j i"
  shows "quad n r (woodbury_inverse n k F Ninv Sigmainv) =
         quad n r Ninv - quad k (projected n F Ninv r) Sigmainv"
proof -
  let ?Ft = "mtranspose F"
  define G where "G = mmul n Ninv F"
  define H where "H = mmul n ?Ft Ninv"
  define GSH where "GSH = mmul k (mmul k G Sigmainv) H"
  define d where "d = projected n F Ninv r"
  let ?R = "\<lambda>(i::nat) (j::nat). r i"
  let ?Rt = "\<lambda>(i::nat) (j::nat). r j"
  let ?D = "\<lambda>(i::nat) (j::nat). d i"
  let ?Dt = "\<lambda>(i::nat) (j::nat). d j"
  have D: "mmul n H ?R = ?D"
    by (simp add: mmul_def d_def projected_def H_def fun_eq_iff)
  have "?Dt = mtranspose (mmul n H ?R)"
    by (simp add: D mtranspose_def)
  also have "\<dots> = mmul n ?Rt (mmul n (mtranspose Ninv) F)"
    by (simp add: H_def mtranspose_mmul) (simp add: mtranspose_def)
  finally have Dt: "?Dt = mmul n ?Rt (mmul n (mtranspose Ninv) F)" .
  have "meq n k (mmul n Ninv F) (mmul n (mtranspose Ninv) F)"
    by (rule meq_mmul_left) (rule inverse_of_symmetric [OF N sym])
  then have "meq 1 k (mmul n ?Rt G) ?Dt"
    unfolding G_def Dt by (rule meq_mmul_right)
  then have "meq 1 1 (mmul k (mmul k (mmul n ?Rt G) Sigmainv) ?D) (mmul k (mmul k ?Dt Sigmainv) ?D)"
    by (intro meq_mmul_left)
  then have "mmul k (mmul k (mmul n ?Rt G) Sigmainv) ?D 0 0 = mmul k (mmul k ?Dt Sigmainv) ?D 0 0"
    by (rule meqD) simp_all
  moreover have "quad n r GSH = mmul k (mmul k (mmul n ?Rt G) Sigmainv) (mmul n H ?R) 0 0"
    unfolding quad_mmul GSH_def by (simp only: mmul_assoc)
  ultimately have "quad n r GSH = quad k d Sigmainv"
    by (simp add: D quad_mmul)
  moreover have "quad n r (woodbury_inverse n k F Ninv Sigmainv) = quad n r Ninv - quad n r GSH"
    by (simp add: quad_def woodbury_inverse_def GSH_def G_def H_def madd_def mneg_def
        algebra_simps sum_subtractf)
  ultimately show ?thesis by (simp add: d_def)
qed

lemmas demo_defs = demo_N_def demo_Ninv_def demo_F_def demo_Phi_def demo_Phiinv_def
  demo_Sigmainv_def demo_Cinv_def demo_r_def mat_of_rows_def vec_of_list_def

lemma all_less_2: "(\<forall>i<2::nat. P i) \<longleftrightarrow> P 0 \<and> P 1"
  by (auto simp: less_2_cases_iff)

lemma all_less_1: "(\<forall>i<1::nat. P i) \<longleftrightarrow> P 0"
  by simp

lemma sum_less_2: "(\<Sum>l<2::nat. f l) = f 0 + f 1"
  by (simp add: numeral_2_eq_2)

lemma sum_less_1: "(\<Sum>l<1::nat. f l) = f 0"
  by simp

lemma demo_N_inverse: "inverse_of 2 demo_N demo_Ninv"
  by (simp add: inverse_of_def all_less_2 mmul_def sum_less_2 mone_def demo_defs)

lemma demo_Phi_inverse: "inverse_of 1 demo_Phi demo_Phiinv"
  by (simp add: inverse_of_def mmul_def mone_def demo_defs)

lemma demo_Sigma: "woodbury_sigma 2 demo_F demo_Ninv demo_Phiinv 0 0 = 1"
  by (simp add: woodbury_sigma_def madd_def mmul_def mtranspose_def sum_less_2 demo_defs)

lemma demo_Sigma_inverse:
  "inverse_of 1 (woodbury_sigma 2 demo_F demo_Ninv demo_Phiinv) demo_Sigmainv"
  by (simp add: inverse_of_def mmul_def mone_def demo_Sigma) (simp add: demo_defs)

lemma demo_N_symmetric: "symmetric 2 demo_N"
  by (simp add: symmetric_def all_less_2 demo_defs)

lemma demo_C:
  "dense_cov (Suc 0) demo_N demo_F demo_Phi 0 0 = 6"
  "dense_cov (Suc 0) demo_N demo_F demo_Phi 0 (Suc 0) = 4"
  "dense_cov (Suc 0) demo_N demo_F demo_Phi (Suc 0) 0 = 4"
  "dense_cov (Suc 0) demo_N demo_F demo_Phi (Suc 0) (Suc 0) = 8"
  by (simp_all add: dense_cov_def madd_def mmul_def mtranspose_def demo_defs)

lemma demo_C_inverse: "inverse_of 2 (dense_cov 1 demo_N demo_F demo_Phi) demo_Cinv"
  by (simp add: inverse_of_def all_less_2 mmul_def sum_less_2 mone_def demo_C)
     (simp add: demo_defs)

lemma demo_dets:
  "det 2 demo_N = 8" "det (Suc 0) demo_Phi = 4"
  "det 2 (dense_cov (Suc 0) demo_N demo_F demo_Phi) = 32"
  by (simp_all add: numeral_2_eq_2 minor_def demo_C) (simp_all add: demo_defs)

lemma demo_dense:
  "dense_lnlikelihood 2 1 demo_r demo_F demo_N demo_Phi demo_Cinv = - (1 / 2) * (1 / 2 + ln 32)"
  by (simp add: dense_lnlikelihood_def quad_def sum_less_2 demo_dets) (simp add: demo_defs)

text \<open>
  Claim C1. Let \<open>N\<close> be symmetric, as a covariance is, and let \<open>N\<close>, \<open>\<Phi>\<close> and
  \<open>\<Sigma> = \<Phi>\<^sup>-\<^sup>1 + F\<^sup>T N\<^sup>-\<^sup>1 F\<close> have the inverses that the Woodbury form names. Then the
  dense covariance \<open>N + F \<Phi> F\<^sup>T\<close> is invertible, its inverse being the Woodbury
  expression, and the brute-force log-likelihood computed with its inverse is equal to the
  log-likelihood in the Woodbury form. The equality is one of real numbers, so the two
  agree within every tolerance.
\<close>

theorem woodbury_lnlikelihood_eq_dense:
  assumes N: "inverse_of n N Ninv" and Phi: "inverse_of k Phi Phiinv"
    and Sigma: "inverse_of k (woodbury_sigma n F Ninv Phiinv) Sigmainv"
    and sym: "symmetric n N"
  shows "inverse_of n (dense_cov k N F Phi) (woodbury_inverse n k F Ninv Sigmainv) \<and>
         (\<forall>Cinv. inverse_of n (dense_cov k N F Phi) Cinv \<longrightarrow>
            dense_lnlikelihood n k r F N Phi Cinv =
            woodbury_lnlikelihood n k r F N Phi Ninv Phiinv Sigmainv)"
proof (intro conjI allI impI)
  show W: "inverse_of n (dense_cov k N F Phi) (woodbury_inverse n k F Ninv Sigmainv)"
    unfolding inverse_of_meq
    using woodbury_right [OF N Phi Sigma] woodbury_left [OF N Phi Sigma] by simp
  fix Cinv
  assume "inverse_of n (dense_cov k N F Phi) Cinv"
  then have "meq n n Cinv (woodbury_inverse n k F Ninv Sigmainv)"
    using W by (rule inverse_of_unique)
  then have "quad n r Cinv = quad n r (woodbury_inverse n k F Ninv Sigmainv)"
    by (rule quad_cong)
  also have "\<dots> = quad n r Ninv - quad k (projected n F Ninv r) Sigmainv"
    by (rule quad_woodbury_inverse [OF N sym [unfolded symmetric_def]])
  finally show "dense_lnlikelihood n k r F N Phi Cinv =
      woodbury_lnlikelihood n k r F N Phi Ninv Phiinv Sigmainv"
    by (simp add: dense_lnlikelihood_def woodbury_lnlikelihood_def
        ln_abs_det_dense_cov [OF N Phi Sigma])
qed

theorem woodbury_lnlikelihood_eq_dense_witness:
  "inverse_of 2 demo_N demo_Ninv \<and> inverse_of 1 demo_Phi demo_Phiinv \<and>
   inverse_of 1 (woodbury_sigma 2 demo_F demo_Ninv demo_Phiinv) demo_Sigmainv \<and>
   symmetric 2 demo_N \<and>
   inverse_of 2 (dense_cov 1 demo_N demo_F demo_Phi) demo_Cinv \<and>
   dense_lnlikelihood 2 1 demo_r demo_F demo_N demo_Phi demo_Cinv =
     woodbury_lnlikelihood 2 1 demo_r demo_F demo_N demo_Phi demo_Ninv demo_Phiinv demo_Sigmainv"
proof -
  note eq = woodbury_lnlikelihood_eq_dense
    [OF demo_N_inverse demo_Phi_inverse demo_Sigma_inverse demo_N_symmetric, of demo_r]
  from eq demo_C_inverse have
    "dense_lnlikelihood 2 1 demo_r demo_F demo_N demo_Phi demo_Cinv =
     woodbury_lnlikelihood 2 1 demo_r demo_F demo_N demo_Phi demo_Ninv demo_Phiinv demo_Sigmainv"
    by blast
  with demo_N_inverse demo_Phi_inverse demo_Sigma_inverse demo_N_symmetric demo_C_inverse
  show ?thesis by blast
qed

end
